theory Spec2Isabelle
  imports Main "HOL-Library.Word"
begin

section \<open>The headless serial client of niimblue-node\<close>

text \<open>
  The class \<open>NiimbotHeadlessSerialClient\<close> owns one serial port, a connection flag
  \<open>isOpen\<close>, and sends packets through the mutex it inherits. Its methods are
  \<open>async\<close>: each one runs in segments that end at an \<open>await\<close>. The model is an
  event-driven machine. Every segment of a method is one function on the session
  state; the event loop (\<open>step\<close>) runs the segment that an event enables: a call of
  the public interface, the completion of an awaited operation, a timer, or a
  notification of the transport. Promises are observed through the trace: a method
  that settles appends its outcome there.
\<close>

subsection \<open>Data\<close>

type_synonym bytes = "8 word list"

type_synonym handle = nat

datatype jserror = Error string | TypeError

text \<open>
  The enum \<open>ConnectResult\<close> is declared in the protocol library; the client names
  one member only, \<open>FirmwareErrors\<close>. Every other member is a \<open>ResultCode\<close>.
\<close>

datatype ConnectResult = FirmwareErrors | ResultCode nat

record ConnectionInfo =
  deviceName :: string
  result :: ConnectResult

datatype client_event =
    ConnectEvent ConnectionInfo
  | DisconnectEvent
  | RawPacketSentEvent bytes

text \<open>What an observer of the session can see, in the order it happens.\<close>

datatype action =
    Emit client_event
  | StopHeartbeat
  | PortOpened handle string
  | PortClosed handle
  | PortWrite handle bytes
  | ProcessRawPacket bytes
  | ConsoleInfo bytes
  | SendRawSettled bytes "jserror option"
  | ConnectSettled "jserror + ConnectionInfo"

text \<open>
  One outcome of \<open>SerialPort.read()\<close>: a chunk, or an exception. A read on an empty
  buffer returns \<open>null\<close>.
\<close>

datatype read_item = Data bytes | Fault jserror

record SerialPort =
  path :: string
  port_isOpen :: bool
  closeObserver :: bool
  readableObserver :: bool
  buffered :: "read_item list"

text \<open>A \<open>send\<close> closure suspended in \<open>Utils.sleep(packetIntervalMs)\<close>.\<close>

record sleeper =
  s_data :: bytes
  s_gated :: bool
  s_due :: nat

text \<open>
  Where a call of \<open>connect()\<close> stands: at one of its \<open>await\<close>s, or settled. The two
  \<open>await this.disconnect()\<close> are the one at the top and the one in the \<open>catch\<close> block,
  which holds the error to throw again.
\<close>

datatype phase =
    Settled
  | AwaitDisconnect
  | AwaitOpen string
  | AwaitNegotiate
  | AwaitInfo
  | AwaitRethrow jserror

record session =
  portName :: "string option"
  device :: "handle option"
  isOpen :: bool
  connectResult :: "ConnectResult option"
  packetIntervalMs :: nat
  debug :: bool
  heartbeatRunning :: bool
  processRawPacket :: "bytes \<Rightarrow> jserror option"
  mutexLocked :: bool
  mutexQueue :: "bytes list"
  sleeping :: "sleeper list"
  now :: nat
  connects :: "phase list"
  ports :: "handle \<Rightarrow> SerialPort"
  nports :: nat
  closeNotifications :: "handle list"
  trace :: "action list"

text \<open>
  \<open>portName\<close>, \<open>device\<close> and \<open>isOpen\<close> are the private fields of the class. The rest
  is what the class inherits from \<open>NiimbotAbstractClient\<close> and what it runs on, none
  of it in the sources:
  \<^item> \<open>connectResult\<close> is \<open>this.info.connectResult\<close>, \<open>packetIntervalMs\<close> and \<open>debug\<close> are
    the inherited settings, \<open>heartbeatRunning\<close> tells whether the inherited heartbeat
    timer runs;
  \<^item> \<open>processRawPacket\<close> is the inherited decoder entry, given by the exception it
    throws on a chunk, if any;
  \<^item> \<open>mutexLocked\<close> and \<open>mutexQueue\<close> are the inherited \<open>mutex\<close>: whether it is held, and
    the payloads of the \<open>send\<close> closures queued at it, oldest first;
  \<^item> \<open>sleeping\<close> and \<open>now\<close> are the timers of \<open>Utils.sleep\<close> and the clock, in ms;
  \<^item> \<open>connects\<close> holds the program counter of every call of \<open>connect()\<close> so far, in
    call order; any number of them can be pending at once;
  \<^item> \<open>ports\<close> are the serial ports created so far (\<open>nports\<close> of them), a handle being
    the index of its port, and \<open>closeNotifications\<close> the \<open>close\<close> events the transport
    has still to deliver, oldest first;
  \<^item> \<open>trace\<close> is what has been observed so far.
\<close>

definition closedPort :: SerialPort where
  "closedPort = \<lparr>path = [], port_isOpen = False, closeObserver = False,
     readableObserver = False, buffered = []\<rparr>"

text \<open>The session right after \<open>new NiimbotHeadlessSerialClient()\<close>.\<close>

definition newClient :: "nat \<Rightarrow> bool \<Rightarrow> (bytes \<Rightarrow> jserror option) \<Rightarrow> session" where
  "newClient interval dbg decoder =
     \<lparr>portName = None, device = None, isOpen = False, connectResult = None,
      packetIntervalMs = interval, debug = dbg, heartbeatRunning = False,
      processRawPacket = decoder, mutexLocked = False, mutexQueue = [],
      sleeping = [], now = 0, connects = [], ports = (\<lambda>_. closedPort),
      nports = 0, closeNotifications = [], trace = []\<rparr>"

definition emit :: "client_event \<Rightarrow> session \<Rightarrow> session" where
  "emit e s = s\<lparr>trace := trace s @ [Emit e]\<rparr>"

definition stopHeartbeat :: "session \<Rightarrow> session" where
  "stopHeartbeat s = s\<lparr>heartbeatRunning := False, trace := trace s @ [StopHeartbeat]\<rparr>"

subsection \<open>The transport\<close>

text \<open>
  Modelled from the spec: the class \<open>SerialPort\<close> of the serialport library, which the
  sources import but do not contain. Section 4.1 of the spec gives its contract:
  \<open>close()\<close> is idempotent and a no-op on a closed handle; a handle that closes, by
  the caller or by the device, emits one "closed" notification; \<open>write\<close> fails on a
  handle that is not open; \<open>readAvailable\<close> returns \<open>None\<close> when nothing is buffered.
  Section 5: the substrate is event-driven and the host environment dispatches the
  close and readability callbacks. So an observer registered with
  \<open>on("close", ...)\<close> does not run inside \<open>close()\<close>: the notification is queued
  when the handle closes and the observer runs when the event loop delivers it.
  The model marks a handle closed at the call of \<open>close()\<close>, which the client does not
  await; that the close has completed is what the notification reports.
\<close>

definition transport_closes :: "handle \<Rightarrow> session \<Rightarrow> session" where
  "transport_closes h s =
     (if port_isOpen (ports s h)
      then s\<lparr>ports := (ports s)(h := (ports s h)\<lparr>port_isOpen := False\<rparr>),
             closeNotifications := closeNotifications s @ [h],
             trace := trace s @ [PortClosed h]\<rparr>
      else s)"

definition port_write :: "handle \<Rightarrow> bytes \<Rightarrow> session \<Rightarrow> jserror option \<times> session" where
  "port_write h data s =
     (if port_isOpen (ports s h)
      then (None, s\<lparr>trace := trace s @ [PortWrite h data]\<rparr>)
      else (Some (Error ''WriteFailed''), s))"

subsection \<open>disconnect and isConnected\<close>

definition disconnect :: "session \<Rightarrow> session" where
  "disconnect s =
     (let s1 = stopHeartbeat s
      in case device s1 of None \<Rightarrow> s1 | Some h \<Rightarrow> transport_closes h s1)"

definition isConnected :: "session \<Rightarrow> bool" where
  "isConnected s = isOpen s"

subsection \<open>dataReady\<close>

text \<open>
  The loop of \<open>dataReady\<close> over the buffer of the port it reads. Each round is one
  \<open>read()\<close>: \<open>null\<close> ends the loop, an exception of \<open>read()\<close> or of \<open>processRawPacket\<close> is
  caught and ends the loop, a chunk is logged when \<open>debug\<close> is set and handed to
  \<open>processRawPacket\<close>. The result is what the loop did and what stays buffered.
\<close>

fun drain :: "(bytes \<Rightarrow> jserror option) \<Rightarrow> bool \<Rightarrow> read_item list \<Rightarrow> action list \<times> read_item list" where
  "drain decoder dbg [] = ([], [])"
| "drain decoder dbg (Fault e # rest) = ([], rest)"
| "drain decoder dbg (Data chunk # rest) =
     (let acts = (if dbg then [ConsoleInfo chunk] else []) @ [ProcessRawPacket chunk]
      in case decoder chunk of
           Some e \<Rightarrow> (acts, rest)
         | None \<Rightarrow> (case drain decoder dbg rest of (acts', rest') \<Rightarrow> (acts @ acts', rest')))"

text \<open>
  \<open>this.device!.read()\<close> with no device is a \<open>TypeError\<close>, inside the \<open>try\<close>: the
  loop ends at once.
\<close>

definition dataReady :: "session \<Rightarrow> session" where
  "dataReady s =
     (case device s of
        None \<Rightarrow> s
      | Some h \<Rightarrow>
          (case drain (processRawPacket s) (debug s) (buffered (ports s h)) of
             (acts, rest) \<Rightarrow>
               s\<lparr>ports := (ports s)(h := (ports s h)\<lparr>buffered := rest\<rparr>),
                 trace := trace s @ acts\<rparr>))"

text \<open>The chunks a piece of trace hands to the decoder, in order.\<close>

fun forwarded :: "action list \<Rightarrow> bytes list" where
  "forwarded [] = []"
| "forwarded (ProcessRawPacket c # as) = c # forwarded as"
| "forwarded (a # as) = forwarded as"

text \<open>
  The chunks at the front of a buffer up to the first one that ends the drain: the
  chunks before the first exception of \<open>read()\<close>, cut after the first chunk the decoder
  throws on.
\<close>

fun deliverable :: "(bytes \<Rightarrow> jserror option) \<Rightarrow> read_item list \<Rightarrow> bytes list" where
  "deliverable decoder [] = []"
| "deliverable decoder (Fault e # rest) = []"
| "deliverable decoder (Data chunk # rest) =
     (if decoder chunk = None then chunk # deliverable decoder rest else [chunk])"

fun chunks :: "read_item list \<Rightarrow> bytes list" where
  "chunks [] = []"
| "chunks (Data c # rest) = c # chunks rest"
| "chunks (Fault e # rest) = chunks rest"

fun faultless :: "(bytes \<Rightarrow> jserror option) \<Rightarrow> read_item list \<Rightarrow> bool" where
  "faultless decoder [] = True"
| "faultless decoder (Fault e # rest) = False"
| "faultless decoder (Data c # rest) = (decoder c = None \<and> faultless decoder rest)"

subsection \<open>sendRaw\<close>

text \<open>
  The closure \<open>send\<close> up to its \<open>await Utils.sleep(this.packetIntervalMs)\<close>: the
  check of \<open>isConnected()\<close>, then the timer. \<open>gated\<close> tells whether the closure runs
  inside \<open>runExclusive\<close>. \<open>Utils.sleep(ms)\<close> is the protocol library's: its promise
  resolves when \<open>ms\<close> milliseconds have passed, not before.
\<close>

definition send_begin :: "bytes \<Rightarrow> bool \<Rightarrow> session \<Rightarrow> jserror option \<times> session" where
  "send_begin data gated s =
     (if \<not> isConnected s then (Some (Error ''Not connected''), s)
      else (None, s\<lparr>sleeping := sleeping s @
              [\<lparr>s_data = data, s_gated = gated, s_due = now s + packetIntervalMs s\<rparr>]\<rparr>))"

definition settle_send :: "bytes \<Rightarrow> jserror option \<Rightarrow> session \<Rightarrow> session" where
  "settle_send data r s = s\<lparr>trace := trace s @ [SendRawSettled data r]\<rparr>"

text \<open>
  Modelled from the spec: the class \<open>Mutex\<close> behind the inherited field \<open>mutex\<close>, which
  the sources use but do not contain. Section 4.2 of the spec: an exclusive gate with
  "first-come-first-served queueing of competing callers; no priority". \<open>runExclusive\<close>
  takes the gate when it is free and queues the callback otherwise; it releases the
  gate when the callback has returned or thrown. A release hands the gate to the
  oldest queued callback; a callback that throws at once releases again.
\<close>

fun release_to :: "bytes list \<Rightarrow> session \<Rightarrow> session" where
  "release_to [] s = s\<lparr>mutexLocked := False, mutexQueue := []\<rparr>"
| "release_to (data # queue) s =
     (case send_begin data True (s\<lparr>mutexQueue := queue\<rparr>) of
        (Some e, s1) \<Rightarrow> release_to queue (settle_send data (Some e) s1)
      | (None, s1) \<Rightarrow> s1)"

definition mutex_release :: "session \<Rightarrow> session" where
  "mutex_release s = release_to (mutexQueue s) s"

text \<open>The call \<open>sendRaw(data, force)\<close>, up to its first suspension.\<close>

definition sendRaw :: "bytes \<Rightarrow> bool \<Rightarrow> session \<Rightarrow> session" where
  "sendRaw data force s =
     (if force then
        (case send_begin data False s of
           (Some e, s1) \<Rightarrow> settle_send data (Some e) s1
         | (None, s1) \<Rightarrow> s1)
      else if mutexLocked s then s\<lparr>mutexQueue := mutexQueue s @ [data]\<rparr>
      else
        (case send_begin data True (s\<lparr>mutexLocked := True\<rparr>) of
           (Some e, s1) \<Rightarrow> mutex_release (settle_send data (Some e) s1)
         | (None, s1) \<Rightarrow> s1))"

text \<open>
  The rest of \<open>send\<close>, when its timer has fired: \<open>this.device!.write\<close>, the
  \<open>rawpacketsent\<close> event, and the release of the gate if the closure holds it.
\<close>

definition device_write :: "bytes \<Rightarrow> session \<Rightarrow> jserror option \<times> session" where
  "device_write data s =
     (case device s of None \<Rightarrow> (Some TypeError, s) | Some h \<Rightarrow> port_write h data s)"

definition send_finish :: "sleeper \<Rightarrow> session \<Rightarrow> session" where
  "send_finish sl s =
     (let s2 = (case device_write (s_data sl) s of
                  (Some e, s1) \<Rightarrow> settle_send (s_data sl) (Some e) s1
                | (None, s1) \<Rightarrow>
                    settle_send (s_data sl) None (emit (RawPacketSentEvent (s_data sl)) s1))
      in if s_gated sl then mutex_release s2 else s2)"

definition timerFires :: "nat \<Rightarrow> session \<Rightarrow> session" where
  "timerFires i s =
     (if i < length (sleeping s) \<and> s_due (sleeping s ! i) \<le> now s
      then send_finish (sleeping s ! i)
             (s\<lparr>sleeping := take i (sleeping s) @ drop (Suc i) (sleeping s)\<rparr>)
      else s)"

subsection \<open>connect\<close>

text \<open>The phase of the \<open>k\<close>-th call of \<open>connect()\<close>; a call not made yet counts as settled.\<close>

definition phaseOf :: "session \<Rightarrow> nat \<Rightarrow> phase" where
  "phaseOf s k = (if k < length (connects s) then connects s ! k else Settled)"

definition setPhase :: "nat \<Rightarrow> phase \<Rightarrow> session \<Rightarrow> session" where
  "setPhase k ph s = s\<lparr>connects := (connects s)[k := ph]\<rparr>"

definition settle_connect :: "nat \<Rightarrow> jserror + ConnectionInfo \<Rightarrow> session \<Rightarrow> session" where
  "settle_connect k r s = setPhase k Settled (s\<lparr>trace := trace s @ [ConnectSettled r]\<rparr>)"

text \<open>
  The call \<open>connect()\<close>, up to its first suspension: \<open>disconnect()\<close> runs to its end
  and the call waits at \<open>await this.disconnect()\<close>. Nothing keeps \<open>connect()\<close> from being
  called while an earlier call is pending.
\<close>

definition connect_start :: "session \<Rightarrow> session" where
  "connect_start s = (let s1 = disconnect s in s1\<lparr>connects := connects s1 @ [AwaitDisconnect]\<rparr>)"

text \<open>
  The call resumes after \<open>await this.disconnect()\<close>. At the top of \<open>connect()\<close> it reads
  \<open>this.portName\<close> now: \<open>!this.portName\<close> holds for an unset name and for the empty
  string; otherwise it waits at \<open>await serialOpenAsync(this.portName)\<close>. In the
  \<open>catch\<close> block it throws the error again.
\<close>

definition connect_resumed :: "nat \<Rightarrow> session \<Rightarrow> session" where
  "connect_resumed k s =
     (case phaseOf s k of
        AwaitDisconnect \<Rightarrow>
          (case portName s of
             None \<Rightarrow> settle_connect k (Inl (Error ''Port not set'')) s
           | Some p \<Rightarrow>
               if p = [] then settle_connect k (Inl (Error ''Port not set'')) s
               else setPhase k (AwaitOpen p) s)
      | AwaitRethrow e \<Rightarrow> settle_connect k (Inl e) s
      | _ \<Rightarrow> s)"

text \<open>\<open>serialOpenAsync\<close> resolves with a new open port.\<close>

definition serialOpenAsync :: "string \<Rightarrow> session \<Rightarrow> handle \<times> session" where
  "serialOpenAsync p s =
     (nports s,
      s\<lparr>ports := (ports s)(nports s := \<lparr>path = p, port_isOpen = True, closeObserver = False,
                                        readableObserver = False, buffered = []\<rparr>),
        nports := Suc (nports s),
        trace := trace s @ [PortOpened (nports s) p]\<rparr>)"

text \<open>
  From the resolution of \<open>serialOpenAsync\<close> to \<open>await this.initialNegotiate()\<close>: the
  flag, the two observers, the device.
\<close>

definition connect_opened :: "nat \<Rightarrow> session \<Rightarrow> session" where
  "connect_opened k s =
     (case phaseOf s k of
        AwaitOpen p \<Rightarrow>
          (case serialOpenAsync p s of
             (h, s1) \<Rightarrow>
               (let s2 = s1\<lparr>isOpen := True\<rparr>;
                    s3 = s2\<lparr>ports := (ports s2)(h := (ports s2 h)\<lparr>closeObserver := True\<rparr>)\<rparr>;
                    s4 = s3\<lparr>ports := (ports s3)(h := (ports s3 h)\<lparr>readableObserver := True\<rparr>)\<rparr>
                in setPhase k AwaitNegotiate (s4\<lparr>device := Some h\<rparr>)))
      | _ \<Rightarrow> s)"

text \<open>\<open>serialOpenAsync\<close> rejects: \<open>connect()\<close> rejects with the same error.\<close>

definition connect_open_failed :: "nat \<Rightarrow> jserror \<Rightarrow> session \<Rightarrow> session" where
  "connect_open_failed k e s =
     (case phaseOf s k of AwaitOpen p \<Rightarrow> settle_connect k (Inl e) s | _ \<Rightarrow> s)"

text \<open>\<open>initialNegotiate()\<close> resolves: \<open>await this.fetchPrinterInfo()\<close>.\<close>

definition connect_negotiated :: "nat \<Rightarrow> session \<Rightarrow> session" where
  "connect_negotiated k s =
     (case phaseOf s k of AwaitNegotiate \<Rightarrow> setPhase k AwaitInfo s | _ \<Rightarrow> s)"

text \<open>
  The \<open>catch\<close> block up to its \<open>await this.disconnect()\<close>: the flag is cleared and
  \<open>disconnect()\<close> runs to its end.
\<close>

definition connect_catch :: "nat \<Rightarrow> jserror \<Rightarrow> session \<Rightarrow> session" where
  "connect_catch k e s = setPhase k (AwaitRethrow e) (disconnect (s\<lparr>isOpen := False\<rparr>))"

definition connect_negotiate_failed :: "nat \<Rightarrow> jserror \<Rightarrow> session \<Rightarrow> session" where
  "connect_negotiate_failed k e s =
     (case phaseOf s k of AwaitNegotiate \<Rightarrow> connect_catch k e s | _ \<Rightarrow> s)"

definition connect_info_failed :: "nat \<Rightarrow> jserror \<Rightarrow> session \<Rightarrow> session" where
  "connect_info_failed k e s =
     (case phaseOf s k of AwaitInfo \<Rightarrow> connect_catch k e s | _ \<Rightarrow> s)"

text \<open>
  After the \<open>try\<close>: the result, the \<open>connect\<close> event, the return. A template literal
  prints an unset name as \<open>undefined\<close>.
\<close>

definition connectionInfo :: "session \<Rightarrow> ConnectionInfo" where
  "connectionInfo s =
     \<lparr>deviceName = ''Serial ('' @ (case portName s of None \<Rightarrow> ''undefined'' | Some p \<Rightarrow> p) @ '')'',
      result = (case connectResult s of None \<Rightarrow> FirmwareErrors | Some r \<Rightarrow> r)\<rparr>"

definition connect_finish :: "nat \<Rightarrow> session \<Rightarrow> session" where
  "connect_finish k s =
     (case phaseOf s k of
        AwaitInfo \<Rightarrow>
          (let r = connectionInfo s
           in settle_connect k (Inr r) (emit (ConnectEvent r) s))
      | _ \<Rightarrow> s)"

subsection \<open>The observers\<close>

text \<open>The \<open>close\<close> observer that \<open>connect()\<close> installs.\<close>

definition onClose :: "session \<Rightarrow> session" where
  "onClose s = emit DisconnectEvent (s\<lparr>isOpen := False\<rparr>)"

text \<open>The event loop delivers the oldest notification to the observer of its port.\<close>

definition dispatchClose :: "session \<Rightarrow> session" where
  "dispatchClose s =
     (case closeNotifications s of
        [] \<Rightarrow> s
      | h # hs \<Rightarrow>
          (let s1 = s\<lparr>closeNotifications := hs\<rparr>
           in if closeObserver (ports s1 h) then onClose s1 else s1))"

text \<open>Data arrives on a port; its \<open>readable\<close> observer, if installed, runs \<open>dataReady\<close>.\<close>

definition portReceives :: "handle \<Rightarrow> read_item list \<Rightarrow> session \<Rightarrow> session" where
  "portReceives h items s =
     (if port_isOpen (ports s h)
      then (let s1 = s\<lparr>ports := (ports s)(h := (ports s h)\<lparr>buffered := buffered (ports s h) @ items\<rparr>)\<rparr>
            in if readableObserver (ports s1 h) then dataReady s1 else s1)
      else s)"

subsection \<open>The event loop\<close>

text \<open>
  What can happen to a session. The calls of the public interface: \<open>setPort\<close>,
  \<open>connect\<close>, \<open>disconnect\<close>, \<open>sendRaw\<close>, and the inherited \<open>startHeartbeat\<close>. The
  completions that the \<open>k\<close>-th call of \<open>connect()\<close> awaits: \<open>disconnect()\<close> returning,
  \<open>serialOpenAsync\<close>, then the inherited \<open>initialNegotiate\<close> and \<open>fetchPrinterInfo\<close>, each
  resolving or rejecting; what these two collaborators do to the session they do
  through \<open>sendRaw\<close> and by recording \<open>info.connectResult\<close> (\<open>SetConnectResult\<close>).
  The runtime: time passes (\<open>Advance\<close>), the
  timer of the \<open>i\<close>-th sleeping \<open>send\<close> fires (\<open>TimerFires\<close>, once it is due). The
  transport: data arrives on a port, the device closes a port (\<open>Unplug\<close>), the oldest
  close notification is delivered (\<open>DispatchClose\<close>). A stimulus that is not enabled
  leaves the session as it is.
\<close>

datatype stimulus =
    CallSetPort string
  | CallConnect
  | DisconnectReturns nat
  | OpenSucceeds nat
  | OpenFails nat jserror
  | InitialNegotiateResolves nat
  | InitialNegotiateRejects nat jserror
  | FetchPrinterInfoResolves nat
  | FetchPrinterInfoRejects nat jserror
  | SetConnectResult "ConnectResult option"
  | CallStartHeartbeat
  | CallDisconnect
  | CallSendRaw bytes bool
  | Advance nat
  | TimerFires nat
  | PortReceives handle "read_item list"
  | Unplug handle
  | DispatchClose

definition setPort :: "string \<Rightarrow> session \<Rightarrow> session" where
  "setPort p s = s\<lparr>portName := Some p\<rparr>"

fun step :: "stimulus \<Rightarrow> session \<Rightarrow> session" where
  "step (CallSetPort p) s = setPort p s"
| "step CallConnect s = connect_start s"
| "step (DisconnectReturns k) s = connect_resumed k s"
| "step (OpenSucceeds k) s = connect_opened k s"
| "step (OpenFails k e) s = connect_open_failed k e s"
| "step (InitialNegotiateResolves k) s = connect_negotiated k s"
| "step (InitialNegotiateRejects k e) s = connect_negotiate_failed k e s"
| "step (FetchPrinterInfoResolves k) s = connect_finish k s"
| "step (FetchPrinterInfoRejects k e) s = connect_info_failed k e s"
| "step (SetConnectResult r) s = s\<lparr>connectResult := r\<rparr>"
| "step CallStartHeartbeat s = s\<lparr>heartbeatRunning := True\<rparr>"
| "step CallDisconnect s = disconnect s"
| "step (CallSendRaw data force) s = sendRaw data force s"
| "step (Advance dt) s = s\<lparr>now := now s + dt\<rparr>"
| "step (TimerFires i) s = timerFires i s"
| "step (PortReceives h items) s = portReceives h items s"
| "step (Unplug h) s = transport_closes h s"
| "step DispatchClose s = dispatchClose s"

fun run :: "stimulus list \<Rightarrow> session \<Rightarrow> session" where
  "run [] s = s"
| "run (e # es) s = run es (step e s)"

subsection \<open>Vocabulary of the properties\<close>

text \<open>Actions of the read loop: it logs and it hands chunks to the decoder.\<close>

fun quiet :: "action \<Rightarrow> bool" where
  "quiet (ProcessRawPacket c) = True"
| "quiet (ConsoleInfo c) = True"
| "quiet a = False"

text \<open>A client with a packet interval of 10 ms, and the same client connected to COM7.\<close>

definition freshClient :: session where
  "freshClient = newClient 10 False (\<lambda>_. None)"

definition negotiatingClient :: session where
  "negotiatingClient =
     run [CallSetPort ''COM7'', CallConnect, DisconnectReturns 0, OpenSucceeds 0] freshClient"

definition connectedClient :: session where
  "connectedClient = run [InitialNegotiateResolves 0, FetchPrinterInfoResolves 0] negotiatingClient"

text \<open>
  Two calls of \<open>connect()\<close> that overlap: the second is made, for COM8, while the
  first, for COM7, awaits its port; then both ports open.
\<close>

definition overlappingClient :: session where
  "overlappingClient =
     run [CallSetPort ''COM7'', CallConnect, DisconnectReturns 0,
          CallSetPort ''COM8'', CallConnect, DisconnectReturns 1,
          OpenSucceeds 0, OpenSucceeds 1] freshClient"

text \<open>The payloads a piece of trace writes to the transport, in order.\<close>

fun writes :: "action list \<Rightarrow> bytes list" where
  "writes [] = []"
| "writes (PortWrite h d # as) = d # writes as"
| "writes (a # as) = writes as"

text \<open>The rejection of \<open>sendRaw(d)\<close> with \<open>new Error("Not connected")\<close>.\<close>

definition notConnected :: "bytes \<Rightarrow> action" where
  "notConnected d = SendRawSettled d (Some (Error ''Not connected''))"

text \<open>
  The events of gated sending: calls of \<open>sendRaw\<close> with \<open>force\<close> unset, the passing
  of time, and timers. \<open>issued\<close> lists the payloads of the gated calls in call order.
\<close>

fun gateTraffic :: "stimulus \<Rightarrow> bool" where
  "gateTraffic (CallSendRaw d force) = (\<not> force)"
| "gateTraffic (Advance dt) = True"
| "gateTraffic (TimerFires i) = True"
| "gateTraffic e = False"

fun issued :: "stimulus list \<Rightarrow> bytes list" where
  "issued [] = []"
| "issued (CallSendRaw d force # es) = (if force then issued es else d # issued es)"
| "issued (e # es) = issued es"

text \<open>A connected session on the open port \<open>h\<close> with no send under way.\<close>

definition connectedIdle :: "handle \<Rightarrow> session \<Rightarrow> bool" where
  "connectedIdle h s =
     (isConnected s \<and> device s = Some h \<and> port_isOpen (ports s h)
      \<and> \<not> mutexLocked s \<and> mutexQueue s = [] \<and> sleeping s = [])"

text \<open>
  The same session while gated sends are under way: the gate is held exactly while
  one gated \<open>send\<close> sleeps, and that timer is due within the packet interval.
\<close>

definition gateHeldBySleeper :: "session \<Rightarrow> bool" where
  "gateHeldBySleeper s =
     (case sleeping s of
        [] \<Rightarrow> \<not> mutexLocked s \<and> mutexQueue s = []
      | [sl] \<Rightarrow> mutexLocked s \<and> s_gated sl \<and> s_due sl \<le> now s + packetIntervalMs s
      | _ \<Rightarrow> False)"

definition sending :: "handle \<Rightarrow> session \<Rightarrow> bool" where
  "sending h s =
     (isConnected s \<and> device s = Some h \<and> port_isOpen (ports s h) \<and> gateHeldBySleeper s)"

text \<open>The payloads of the sends under way: the sleeping one, then the queue.\<close>

definition pendingData :: "session \<Rightarrow> bytes list" where
  "pendingData s = map s_data (sleeping s) @ mutexQueue s"

text \<open>One packet interval passes and the first timer fires, \<open>n\<close> times over.\<close>

fun rounds :: "nat \<Rightarrow> nat \<Rightarrow> stimulus list" where
  "rounds 0 dt = []"
| "rounds (Suc n) dt = Advance dt # TimerFires 0 # rounds n dt"

text \<open>
  The connected client with one gated send asleep, after the device was unplugged
  and the close notification delivered: the gate is held, the session is not
  connected.
\<close>

definition unpluggedWhileSending :: session where
  "unpluggedWhileSending = run [CallSendRaw [1] False, Unplug 0, DispatchClose] connectedClient"

text \<open>Counting in a trace: handles that closed, \<open>disconnect\<close> events emitted.\<close>

fun closes :: "action list \<Rightarrow> nat" where
  "closes [] = 0"
| "closes (PortClosed h # as) = Suc (closes as)"
| "closes (a # as) = closes as"

fun disconnects :: "action list \<Rightarrow> nat" where
  "disconnects [] = 0"
| "disconnects (Emit DisconnectEvent # as) = Suc (disconnects as)"
| "disconnects (a # as) = disconnects as"

text \<open>
  The part of a session that concerns the connection: the device, which ports are
  open and observed, the pending close notifications, the flag, the calls of
  \<open>connect()\<close>, and the two counts.
\<close>

definition link :: "session \<Rightarrow>
    handle option \<times> nat \<times> (handle \<Rightarrow> bool) \<times> (handle \<Rightarrow> bool) \<times> handle list \<times> bool
      \<times> phase list \<times> nat \<times> nat" where
  "link s =
     (device s, nports s, (\<lambda>h. port_isOpen (ports s h)), (\<lambda>h. closeObserver (ports s h)),
      closeNotifications s, isOpen s, connects s, closes (trace s), disconnects (trace s))"

text \<open>
  What holds of the connection in every state the client reaches, however the
  calls of \<open>connect()\<close> overlap: the device is a port that was created; a port that
  is open or has a notification pending is observed; the flag is set only if the
  device is open or its close notification is still pending; each close is matched
  by one \<open>disconnect\<close> event, emitted or pending.
\<close>

definition wellLinked :: "session \<Rightarrow> bool" where
  "wellLinked s =
     ((\<forall>h. device s = Some h \<longrightarrow> h < nports s)
      \<and> (\<forall>h. port_isOpen (ports s h) \<or> h \<in> set (closeNotifications s) \<longrightarrow>
            closeObserver (ports s h))
      \<and> (isOpen s \<longrightarrow>
            (\<exists>h. device s = Some h
               \<and> (port_isOpen (ports s h) \<or> h \<in> set (closeNotifications s))))
      \<and> disconnects (trace s) + length (closeNotifications s) = closes (trace s))"




fun inHandshake :: "phase \<Rightarrow> bool" where
  "inHandshake AwaitNegotiate = True"
| "inHandshake AwaitInfo = True"
| "inHandshake ph = False"


text \<open>
  The stimuli that leave the flag alone while the \<open>k\<close>-th call is in its handshake:
  all but the delivery of a close notification and the failed handshake of another
  call.
\<close>

fun sparesFlag :: "nat \<Rightarrow> stimulus \<Rightarrow> bool" where
  "sparesFlag k DispatchClose = False"
| "sparesFlag k (InitialNegotiateRejects j e) = (j = k)"
| "sparesFlag k (FetchPrinterInfoRejects j e) = (j = k)"
| "sparesFlag k e = True"



text \<open>The event loop delivers every close notification that is pending.\<close>

definition deliverCloses :: "session \<Rightarrow> session" where
  "deliverCloses s = run (replicate (length (closeNotifications s)) DispatchClose) s"

section \<open>Properties\<close>

lemmas segment_defs =
  newClient_def closedPort_def emit_def stopHeartbeat_def transport_closes_def port_write_def
  disconnect_def isConnected_def dataReady_def send_begin_def settle_send_def
  mutex_release_def sendRaw_def device_write_def send_finish_def timerFires_def
  settle_connect_def connect_start_def serialOpenAsync_def connect_opened_def
  connect_open_failed_def connect_negotiated_def connect_catch_def
  connect_negotiate_failed_def connect_info_failed_def connectionInfo_def
  connect_finish_def onClose_def dispatchClose_def portReceives_def setPort_def
  phaseOf_def setPhase_def connect_resumed_def

subsection \<open>The example sessions\<close>

lemma negotiatingClient_eq:
  "negotiatingClient =
     \<lparr>portName = Some ''COM7'', device = Some 0, isOpen = True, connectResult = None,
      packetIntervalMs = 10, debug = False, heartbeatRunning = False,
      processRawPacket = (\<lambda>_. None), mutexLocked = False, mutexQueue = [],
      sleeping = [], now = 0, connects = [AwaitNegotiate],
      ports = (\<lambda>_. closedPort)(0 := \<lparr>path = ''COM7'', port_isOpen = True,
                 closeObserver = True, readableObserver = True, buffered = []\<rparr>),
      nports = 1, closeNotifications = [],
      trace = [StopHeartbeat, PortOpened 0 ''COM7'']\<rparr>"
  by (simp add: negotiatingClient_def freshClient_def segment_defs Let_def)

lemma connectedClient_eq:
  "connectedClient =
     \<lparr>portName = Some ''COM7'', device = Some 0, isOpen = True, connectResult = None,
      packetIntervalMs = 10, debug = False, heartbeatRunning = False,
      processRawPacket = (\<lambda>_. None), mutexLocked = False, mutexQueue = [],
      sleeping = [], now = 0, connects = [Settled],
      ports = (\<lambda>_. closedPort)(0 := \<lparr>path = ''COM7'', port_isOpen = True,
                 closeObserver = True, readableObserver = True, buffered = []\<rparr>),
      nports = 1, closeNotifications = [],
      trace = [StopHeartbeat, PortOpened 0 ''COM7'',
               Emit (ConnectEvent \<lparr>deviceName = ''Serial (COM7)'', result = FirmwareErrors\<rparr>),
               ConnectSettled (Inr \<lparr>deviceName = ''Serial (COM7)'', result = FirmwareErrors\<rparr>)]\<rparr>"
  by (simp add: connectedClient_def negotiatingClient_eq segment_defs Let_def)

subsection \<open>The read loop\<close>

lemma drain_forwarded: "forwarded (fst (drain d dbg buf)) = deliverable d buf"
proof (induction buf)
  case Nil
  then show ?case by simp
next
  case (Cons it buf)
  then show ?case by (cases it) (auto simp: Let_def split: option.splits prod.splits)
qed

lemma drain_faultless:
  "faultless d buf \<Longrightarrow> snd (drain d dbg buf) = [] \<and> deliverable d buf = chunks buf"
proof (induction buf)
  case Nil
  then show ?case by simp
next
  case (Cons it buf)
  then show ?case by (cases it) (auto simp: Let_def split: option.splits prod.splits)
qed

lemma drain_quiet: "\<forall>a\<in>set (fst (drain d dbg buf)). quiet a"
proof (induction buf)
  case Nil
  then show ?case by simp
next
  case (Cons it buf)
  then show ?case by (cases it) (auto simp: Let_def split: option.splits prod.splits)
qed

lemma drain_read_fault:
  "\<forall>c\<in>set cs. d c = None \<Longrightarrow> snd (drain d dbg (map Data cs @ Fault e # rest)) = rest"
  by (induction cs) (auto split: option.splits prod.splits)

lemma deliverable_read_fault:
  "\<forall>c\<in>set cs. d c = None \<Longrightarrow> deliverable d (map Data cs @ Fault e # rest) = cs"
  by (induction cs) auto

lemma drain_decoder_fault:
  "\<forall>c\<in>set cs. d c = None \<Longrightarrow> d c' = Some e \<Longrightarrow>
   snd (drain d dbg (map Data cs @ Data c' # rest)) = rest"
  by (induction cs) (auto split: option.splits prod.splits)

lemma deliverable_decoder_fault:
  "\<forall>c\<in>set cs. d c = None \<Longrightarrow> d c' = Some e \<Longrightarrow>
   deliverable d (map Data cs @ Data c' # rest) = cs @ [c']"
  by (induction cs) auto

lemma dataReady_trace:
  "device s = Some h \<Longrightarrow>
   trace (dataReady s) = trace s @ fst (drain (processRawPacket s) (debug s) (buffered (ports s h)))"
  by (simp add: dataReady_def split: prod.splits)

lemma dataReady_buffer:
  "device s = Some h \<Longrightarrow>
   buffered (ports (dataReady s) h) = snd (drain (processRawPacket s) (debug s) (buffered (ports s h)))"
  by (simp add: dataReady_def split: prod.splits)

lemma dataReady_frame:
  "isOpen (dataReady s) = isOpen s \<and> device (dataReady s) = device s
   \<and> connects (dataReady s) = connects s
   \<and> closeNotifications (dataReady s) = closeNotifications s
   \<and> mutexLocked (dataReady s) = mutexLocked s \<and> mutexQueue (dataReady s) = mutexQueue s
   \<and> sleeping (dataReady s) = sleeping s \<and> nports (dataReady s) = nports s
   \<and> port_isOpen (ports (dataReady s) k) = port_isOpen (ports s k)
   \<and> closeObserver (ports (dataReady s) k) = closeObserver (ports s k)"
  by (simp add: dataReady_def split: prod.splits option.splits)

lemma dataReady_on_device:
  assumes "device s = Some h"
    and "buf = buffered (ports s h)"
    and "d = processRawPacket s"
  shows "(\<exists>acts. trace (dataReady s) = trace s @ acts \<and> (\<forall>a\<in>set acts. quiet a)
            \<and> forwarded acts = deliverable d buf)
       \<and> (faultless d buf \<longrightarrow>
            deliverable d buf = chunks buf \<and> buffered (ports (dataReady s) h) = [])
       \<and> (\<forall>cs e rest. buf = map Data cs @ Fault e # rest \<and> (\<forall>c\<in>set cs. d c = None) \<longrightarrow>
            deliverable d buf = cs \<and> buffered (ports (dataReady s) h) = rest)
       \<and> (\<forall>cs c e rest. buf = map Data cs @ Data c # rest \<and> (\<forall>c\<in>set cs. d c = None)
              \<and> d c = Some e \<longrightarrow>
            deliverable d buf = cs @ [c] \<and> buffered (ports (dataReady s) h) = rest)
       \<and> isConnected (dataReady s) = isConnected s
       \<and> device (dataReady s) = device s
       \<and> connects (dataReady s) = connects s
       \<and> closeNotifications (dataReady s) = closeNotifications s
       \<and> (\<forall>k. port_isOpen (ports (dataReady s) k) = port_isOpen (ports s k))"
proof -
  let ?acts = "fst (drain d (debug s) buf)"
  have "trace (dataReady s) = trace s @ ?acts"
    using assms by (simp add: dataReady_trace)
  moreover have "\<forall>a\<in>set ?acts. quiet a"
    by (rule drain_quiet)
  moreover have "forwarded ?acts = deliverable d buf"
    by (rule drain_forwarded)
  ultimately have first: "\<exists>acts. trace (dataReady s) = trace s @ acts
      \<and> (\<forall>a\<in>set acts. quiet a) \<and> forwarded acts = deliverable d buf"
    by blast
  have rest: "buffered (ports (dataReady s) h) = snd (drain d (debug s) buf)"
    using assms by (simp add: dataReady_buffer)
  have second: "faultless d buf \<longrightarrow>
      deliverable d buf = chunks buf \<and> buffered (ports (dataReady s) h) = []"
    using rest drain_faultless [of d buf "debug s"] by simp
  have third: "\<forall>cs e rest. buf = map Data cs @ Fault e # rest \<and> (\<forall>c\<in>set cs. d c = None) \<longrightarrow>
      deliverable d buf = cs \<and> buffered (ports (dataReady s) h) = rest"
    using rest by (auto simp: drain_read_fault deliverable_read_fault)
  have fourth: "\<forall>cs c e rest. buf = map Data cs @ Data c # rest \<and> (\<forall>c\<in>set cs. d c = None)
        \<and> d c = Some e \<longrightarrow>
      deliverable d buf = cs @ [c] \<and> buffered (ports (dataReady s) h) = rest"
    using rest by (auto simp: drain_decoder_fault deliverable_decoder_fault)
  have frame: "isConnected (dataReady s) = isConnected s
       \<and> device (dataReady s) = device s
       \<and> connects (dataReady s) = connects s
       \<and> closeNotifications (dataReady s) = closeNotifications s
       \<and> (\<forall>k. port_isOpen (ports (dataReady s) k) = port_isOpen (ports s k))"
    using dataReady_frame by (simp add: isConnected_def)
  from first second third fourth frame show ?thesis by blast
qed

text \<open>
  C9. Without a device, \<open>dataReady\<close> does nothing. With a device, one run of
  \<open>dataReady\<close> on the buffer \<open>buf\<close> of the device only logs and hands chunks to the
  decoder. The chunks handed over are, in arrival order, the chunks
  of \<open>buf\<close> up to the first error. Without an error the loop stops at the \<open>null\<close> of the
  empty buffer with every chunk handed over. An exception of \<open>read()\<close> after the
  chunks \<open>cs\<close> ends the run with \<open>cs\<close> handed over; an exception of the decoder on
  the chunk \<open>c\<close> ends it with \<open>cs\<close> and \<open>c\<close> handed over; what follows stays buffered.
  No error leaves \<open>dataReady\<close>, and the connection state is as before: the flag behind
  \<open>isConnected()\<close>, the device, the pending \<open>connect()\<close>, the open ports and the
  pending close notifications.
\<close>

theorem dataReady_drains_in_order:
  "(device s = None \<longrightarrow> dataReady s = s)
   \<and> (device s = Some h \<and> buf = buffered (ports s h) \<and> d = processRawPacket s \<longrightarrow>
        (\<exists>acts. trace (dataReady s) = trace s @ acts \<and> (\<forall>a\<in>set acts. quiet a)
            \<and> forwarded acts = deliverable d buf)
        \<and> (faultless d buf \<longrightarrow>
             deliverable d buf = chunks buf \<and> buffered (ports (dataReady s) h) = [])
        \<and> (\<forall>cs e rest. buf = map Data cs @ Fault e # rest \<and> (\<forall>c\<in>set cs. d c = None) \<longrightarrow>
             deliverable d buf = cs \<and> buffered (ports (dataReady s) h) = rest)
        \<and> (\<forall>cs c e rest. buf = map Data cs @ Data c # rest \<and> (\<forall>c\<in>set cs. d c = None)
               \<and> d c = Some e \<longrightarrow>
             deliverable d buf = cs @ [c] \<and> buffered (ports (dataReady s) h) = rest)
        \<and> isConnected (dataReady s) = isConnected s
        \<and> device (dataReady s) = device s
        \<and> connects (dataReady s) = connects s
        \<and> closeNotifications (dataReady s) = closeNotifications s
        \<and> (\<forall>k. port_isOpen (ports (dataReady s) k) = port_isOpen (ports s k)))"
proof -
  have "device s = None \<longrightarrow> dataReady s = s"
    by (simp add: dataReady_def)
  then show ?thesis using dataReady_on_device [of s h buf d] by blast
qed

text \<open>
  On the connected client, two chunks, an exception of \<open>read()\<close> and a third chunk
  are buffered: the run hands over the two chunks and leaves the third.
\<close>

theorem dataReady_drains_in_order_witness:
  "device (connectedClient\<lparr>ports := (ports connectedClient)(0 := (ports connectedClient 0)
       \<lparr>buffered := [Data [1, 2], Data [3], Fault (Error ''closed''), Data [4]]\<rparr>)\<rparr>) = Some 0
   \<and> forwarded (trace (dataReady (connectedClient\<lparr>ports := (ports connectedClient)(0 := (ports connectedClient 0)
       \<lparr>buffered := [Data [1, 2], Data [3], Fault (Error ''closed''), Data [4]]\<rparr>)\<rparr>))) = [[1, 2], [3]]
   \<and> buffered (ports (dataReady (connectedClient\<lparr>ports := (ports connectedClient)(0 := (ports connectedClient 0)
       \<lparr>buffered := [Data [1, 2], Data [3], Fault (Error ''closed''), Data [4]]\<rparr>)\<rparr>)) 0) = [Data [4]]
   \<and> isConnected (dataReady (connectedClient\<lparr>ports := (ports connectedClient)(0 := (ports connectedClient 0)
       \<lparr>buffered := [Data [1, 2], Data [3], Fault (Error ''closed''), Data [4]]\<rparr>)\<rparr>))"
proof -
  let ?s = "connectedClient\<lparr>ports := (ports connectedClient)(0 := (ports connectedClient 0)
       \<lparr>buffered := [Data [1, 2], Data [3], Fault (Error ''closed''), Data [4]]\<rparr>)\<rparr>"
  let ?buf = "[Data [1, 2], Data [3], Fault (Error ''closed''), Data [4 :: 8 word]]"
  have dev: "device ?s = Some 0" by (simp add: connectedClient_eq)
  have buf: "?buf = buffered (ports ?s 0)" by simp
  have dec: "(\<lambda>_. None) = processRawPacket ?s" by (simp add: connectedClient_eq)
  from dataReady_drains_in_order [of ?s 0 ?buf "\<lambda>_. None"] dev buf dec
  have t: "(\<exists>acts. trace (dataReady ?s) = trace ?s @ acts \<and> (\<forall>a\<in>set acts. quiet a)
            \<and> forwarded acts = deliverable (\<lambda>_. None) ?buf)
        \<and> (\<forall>cs e rest. ?buf = map Data cs @ Fault e # rest
              \<and> (\<forall>c\<in>set cs. (\<lambda>_. None) c = (None :: jserror option)) \<longrightarrow>
             deliverable (\<lambda>_. None) ?buf = cs \<and> buffered (ports (dataReady ?s) 0) = rest)
        \<and> isConnected (dataReady ?s) = isConnected ?s"
    by blast
  from t obtain acts where a: "trace (dataReady ?s) = trace ?s @ acts"
      "forwarded acts = deliverable (\<lambda>_. None) ?buf"
    by blast
  have tr: "forwarded (trace ?s) = []" by (simp add: connectedClient_eq)
  have fw: "forwarded (xs @ ys) = forwarded xs @ forwarded ys" for xs ys
    by (induction xs rule: forwarded.induct) auto
  have one: "forwarded (trace (dataReady ?s)) = [[1, 2], [3]]"
    using a tr by (simp add: fw)
  from t have "\<forall>cs e rest. ?buf = map Data cs @ Fault e # rest \<and> (\<forall>c\<in>set cs. (\<lambda>_. None) c = (None :: jserror option)) \<longrightarrow>
            buffered (ports (dataReady ?s) 0) = rest"
    by blast
  then have "?buf = map Data [[1, 2], [3]] @ Fault (Error ''closed'') # [Data [4]] \<longrightarrow>
            buffered (ports (dataReady ?s) 0) = [Data [4]]"
    by blast
  then have two: "buffered (ports (dataReady ?s) 0) = [Data [4]]" by simp
  from t have "isConnected (dataReady ?s) = isConnected ?s" by blast
  then have three: "isConnected (dataReady ?s)" by (simp add: isConnected_def connectedClient_eq)
  from dev one two three show ?thesis by blast
qed

subsection \<open>The result of connect\<close>

text \<open>
  C10. When \<open>fetchPrinterInfo()\<close> resolves in a pending \<open>connect()\<close>, the call emits the
  \<open>connect\<close> event and resolves, both with the same \<open>ConnectionInfo\<close>: the device name
  is \<open>Serial (<portName>)\<close>, and the result is the connect result the negotiation
  recorded, or \<open>FirmwareErrors\<close> when it recorded none.
\<close>

theorem connect_emits_connection_info:
  assumes "phaseOf s k = AwaitInfo"
    and "portName s = Some p"
  shows "trace (step (FetchPrinterInfoResolves k) s) =
           trace s @
             [Emit (ConnectEvent \<lparr>deviceName = ''Serial ('' @ p @ '')'',
                 result = (case connectResult s of None \<Rightarrow> FirmwareErrors | Some r \<Rightarrow> r)\<rparr>),
              ConnectSettled (Inr \<lparr>deviceName = ''Serial ('' @ p @ '')'',
                 result = (case connectResult s of None \<Rightarrow> FirmwareErrors | Some r \<Rightarrow> r)\<rparr>)]"
  using assms
  by (simp add: connect_finish_def connectionInfo_def settle_connect_def setPhase_def emit_def Let_def)

theorem connect_emits_connection_info_witness:
  "phaseOf (step (InitialNegotiateResolves 0) negotiatingClient) 0 = AwaitInfo
   \<and> portName (step (InitialNegotiateResolves 0) negotiatingClient) = Some ''COM7''
   \<and> connectResult (step (InitialNegotiateResolves 0) negotiatingClient) = None
   \<and> trace (step (FetchPrinterInfoResolves 0) (step (InitialNegotiateResolves 0) negotiatingClient)) =
       [StopHeartbeat, PortOpened 0 ''COM7'',
        Emit (ConnectEvent \<lparr>deviceName = ''Serial (COM7)'', result = FirmwareErrors\<rparr>),
        ConnectSettled (Inr \<lparr>deviceName = ''Serial (COM7)'', result = FirmwareErrors\<rparr>)]"
proof -
  let ?s = "step (InitialNegotiateResolves 0) negotiatingClient"
  have ph: "phaseOf ?s 0 = AwaitInfo"
    by (simp add: negotiatingClient_eq connect_negotiated_def phaseOf_def setPhase_def)
  have pn: "portName ?s = Some ''COM7''"
    by (simp add: negotiatingClient_eq connect_negotiated_def phaseOf_def setPhase_def)
  have cr: "connectResult ?s = None"
    by (simp add: negotiatingClient_eq connect_negotiated_def phaseOf_def setPhase_def)
  have tr: "trace ?s = [StopHeartbeat, PortOpened 0 ''COM7'']"
    by (simp add: negotiatingClient_eq connect_negotiated_def phaseOf_def setPhase_def)
  from connect_emits_connection_info [OF ph pn] ph pn cr tr show ?thesis by simp
qed
subsection \<open>sendRaw\<close>

lemma writes_append: "writes (xs @ ys) = writes xs @ writes ys"
  by (induction xs rule: writes.induct) auto

lemma writes_notConnected: "writes (map notConnected q) = []"
  by (induction q) (simp_all add: notConnected_def)

lemma release_to_disconnected:
  "\<not> isConnected s \<Longrightarrow>
   release_to q s = s\<lparr>mutexLocked := False, mutexQueue := [], trace := trace s @ map notConnected q\<rparr>"
  by (induction q arbitrary: s) (simp_all add: send_begin_def settle_send_def isConnected_def notConnected_def)

lemma release_to_connected:
  "isConnected s \<Longrightarrow>
   release_to (d # q) s = s\<lparr>mutexQueue := q, sleeping := sleeping s @
      [\<lparr>s_data = d, s_gated = True, s_due = now s + packetIntervalMs s\<rparr>]\<rparr>"
  by (simp add: send_begin_def isConnected_def)

lemma sendRaw_force_connected:
  "isConnected s \<Longrightarrow> sendRaw d True s = s\<lparr>sleeping := sleeping s @
      [\<lparr>s_data = d, s_gated = False, s_due = now s + packetIntervalMs s\<rparr>]\<rparr>"
  by (simp add: sendRaw_def send_begin_def)

lemma sendRaw_force_disconnected:
  "\<not> isConnected s \<Longrightarrow> sendRaw d True s = s\<lparr>trace := trace s @ [notConnected d]\<rparr>"
  by (simp add: sendRaw_def send_begin_def settle_send_def notConnected_def)

lemma sendRaw_queued:
  "mutexLocked s \<Longrightarrow> sendRaw d False s = s\<lparr>mutexQueue := mutexQueue s @ [d]\<rparr>"
  by (simp add: sendRaw_def)

lemma sendRaw_free_connected:
  "\<not> mutexLocked s \<Longrightarrow> isConnected s \<Longrightarrow> sendRaw d False s = s\<lparr>mutexLocked := True, sleeping := sleeping s @
      [\<lparr>s_data = d, s_gated = True, s_due = now s + packetIntervalMs s\<rparr>]\<rparr>"
  by (simp add: sendRaw_def send_begin_def isConnected_def)

lemma sendRaw_free_disconnected:
  "\<not> mutexLocked s \<Longrightarrow> \<not> isConnected s \<Longrightarrow> sendRaw d False s =
     s\<lparr>mutexLocked := False, mutexQueue := [], trace := trace s @ notConnected d # map notConnected (mutexQueue s)\<rparr>"
  by (simp add: sendRaw_def send_begin_def isConnected_def mutex_release_def settle_send_def
        release_to_disconnected notConnected_def)

lemma send_finish_written:
  "device s = Some h \<Longrightarrow> port_isOpen (ports s h) \<Longrightarrow>
   send_finish sl s =
     (let s2 = s\<lparr>trace := trace s @ [PortWrite h (s_data sl), Emit (RawPacketSentEvent (s_data sl)),
                                    SendRawSettled (s_data sl) None]\<rparr>
      in if s_gated sl then mutex_release s2 else s2)"
  by (simp add: send_finish_def device_write_def port_write_def settle_send_def emit_def)

lemma timerFires_last:
  "now s \<ge> s_due sl \<Longrightarrow>
   timerFires (length xs) (s\<lparr>sleeping := xs @ [sl]\<rparr>) = send_finish sl (s\<lparr>sleeping := xs\<rparr>)"
  by (simp add: timerFires_def)

lemma timerFires_last_early:
  "now s < s_due sl \<Longrightarrow>
   timerFires (length xs) (s\<lparr>sleeping := xs @ [sl]\<rparr>) = s\<lparr>sleeping := xs @ [sl]\<rparr>"
  by (simp add: timerFires_def)

text \<open>
  C4, as amended. \<open>sendRaw\<close> with \<open>force\<close> set skips the gate and nothing else. On a
  connected session with an open device the call neither waits for the gate nor
  takes it, whoever holds it, but it still sleeps \<open>packetIntervalMs\<close>: the call itself
  only starts the timer, nothing is written while less than the interval has
  passed, and when the timer fires after the interval the packet is written, the
  \<open>rawpacketsent\<close> event emitted and the call resolved, with the gate as it was.
\<close>

theorem sendRaw_force_skips_gate_only:
  assumes "isConnected s" and "device s = Some h" and "port_isOpen (ports s h)"
  shows "sendRaw d True s =
           s\<lparr>sleeping := sleeping s @
               [\<lparr>s_data = d, s_gated = False, s_due = now s + packetIntervalMs s\<rparr>]\<rparr>
       \<and> (\<forall>dt. dt < packetIntervalMs s \<longrightarrow>
            trace (run [CallSendRaw d True, Advance dt, TimerFires (length (sleeping s))] s) = trace s)
       \<and> trace (run [CallSendRaw d True, Advance (packetIntervalMs s),
                     TimerFires (length (sleeping s))] s) =
           trace s @ [PortWrite h d, Emit (RawPacketSentEvent d), SendRawSettled d None]
       \<and> mutexLocked (run [CallSendRaw d True, Advance (packetIntervalMs s),
                     TimerFires (length (sleeping s))] s) = mutexLocked s
       \<and> mutexQueue (run [CallSendRaw d True, Advance (packetIntervalMs s),
                     TimerFires (length (sleeping s))] s) = mutexQueue s"
proof -
  let ?sl = "\<lparr>s_data = d, s_gated = False, s_due = now s + packetIntervalMs s\<rparr>"
  have call: "sendRaw d True s = s\<lparr>sleeping := sleeping s @ [?sl]\<rparr>"
    using assms(1) by (rule sendRaw_force_connected)
  have early: "trace (run [CallSendRaw d True, Advance dt, TimerFires (length (sleeping s))] s) = trace s"
    if "dt < packetIntervalMs s" for dt
    using that by (simp add: call timerFires_def)
  have fired: "run [CallSendRaw d True, Advance (packetIntervalMs s), TimerFires (length (sleeping s))] s
      = send_finish ?sl (s\<lparr>now := now s + packetIntervalMs s\<rparr>)"
    by (simp add: call timerFires_def)
  have written: "send_finish ?sl (s\<lparr>now := now s + packetIntervalMs s\<rparr>) =
      s\<lparr>now := now s + packetIntervalMs s,
        trace := trace s @ [PortWrite h d, Emit (RawPacketSentEvent d), SendRawSettled d None]\<rparr>"
    using assms(2,3) by (simp add: send_finish_written)
  have late: "trace (run [CallSendRaw d True, Advance (packetIntervalMs s),
                     TimerFires (length (sleeping s))] s) =
           trace s @ [PortWrite h d, Emit (RawPacketSentEvent d), SendRawSettled d None]"
      "mutexLocked (run [CallSendRaw d True, Advance (packetIntervalMs s),
                     TimerFires (length (sleeping s))] s) = mutexLocked s"
      "mutexQueue (run [CallSendRaw d True, Advance (packetIntervalMs s),
                     TimerFires (length (sleeping s))] s) = mutexQueue s"
    by (simp_all only: fired written) simp_all
  from call early late show ?thesis by blast
qed


text \<open>
  C4 as stated fails: with an interval of 10 ms a forced send writes nothing at the
  call, nothing after 9 ms, and its packet once 10 ms have passed.
\<close>

theorem sendRaw_force_still_sleeps_counterexample:
  "isConnected connectedClient \<and> packetIntervalMs connectedClient = 10
   \<and> writes (trace connectedClient) = []
   \<and> trace (step (CallSendRaw [85] True) connectedClient) = trace connectedClient
   \<and> writes (trace (run [CallSendRaw [85] True, Advance 9, TimerFires 0] connectedClient)) = []
   \<and> writes (trace (run [CallSendRaw [85] True, Advance 10, TimerFires 0] connectedClient)) = [[85]]"
  by (simp add: connectedClient_eq segment_defs Let_def)

theorem sendRaw_force_skips_gate_only_witness:
  "isConnected connectedClient \<and> device connectedClient = Some 0
   \<and> port_isOpen (ports connectedClient 0)
   \<and> sleeping (sendRaw [85] True connectedClient) = [\<lparr>s_data = [85], s_gated = False, s_due = 10\<rparr>]
   \<and> trace (run [CallSendRaw [85] True, Advance 3, TimerFires 0] connectedClient) = trace connectedClient
   \<and> writes (trace (run [CallSendRaw [85] True, Advance 10, TimerFires 0] connectedClient)) = [[85]]"
proof -
  have a: "isConnected connectedClient" by (simp add: connectedClient_eq isConnected_def)
  have b: "device connectedClient = Some 0" by (simp add: connectedClient_eq)
  have c: "port_isOpen (ports connectedClient 0)" by (simp add: connectedClient_eq)
  have n: "packetIntervalMs connectedClient = 10" "sleeping connectedClient = []"
    "now connectedClient = 0" "writes (trace connectedClient) = []"
    by (simp_all add: connectedClient_eq)
  note t = sendRaw_force_skips_gate_only [OF a b c, of "[85]"]
  from t have "sendRaw [85] True connectedClient = connectedClient\<lparr>sleeping := sleeping connectedClient @
               [\<lparr>s_data = [85], s_gated = False, s_due = now connectedClient + packetIntervalMs connectedClient\<rparr>]\<rparr>"
    by blast
  then have "sleeping (sendRaw [85] True connectedClient) = [\<lparr>s_data = [85], s_gated = False, s_due = 10\<rparr>]"
    by (simp add: n)
  moreover from t have "3 < packetIntervalMs connectedClient \<longrightarrow>
      trace (run [CallSendRaw [85] True, Advance 3, TimerFires (length (sleeping connectedClient))] connectedClient) = trace connectedClient"
    by blast
  then have "trace (run [CallSendRaw [85] True, Advance 3, TimerFires 0] connectedClient) = trace connectedClient"
    by (simp add: n)
  moreover from t have "trace (run [CallSendRaw [85] True, Advance (packetIntervalMs connectedClient),
       TimerFires (length (sleeping connectedClient))] connectedClient) =
           trace connectedClient @ [PortWrite 0 [85], Emit (RawPacketSentEvent [85]), SendRawSettled [85] None]"
    by blast
  then have "writes (trace (run [CallSendRaw [85] True, Advance 10, TimerFires 0] connectedClient)) = [[85]]"
    by (simp add: n writes_append)
  ultimately show ?thesis using a b c by blast
qed

lemma unpluggedWhileSending_eq:
  "unpluggedWhileSending =
     \<lparr>portName = Some ''COM7'', device = Some 0, isOpen = False, connectResult = None,
      packetIntervalMs = 10, debug = False, heartbeatRunning = False,
      processRawPacket = (\<lambda>_. None), mutexLocked = True, mutexQueue = [],
      sleeping = [\<lparr>s_data = [1], s_gated = True, s_due = 10\<rparr>], now = 0, connects = [Settled],
      ports = (\<lambda>_. closedPort)(0 := \<lparr>path = ''COM7'', port_isOpen = False,
                 closeObserver = True, readableObserver = True, buffered = []\<rparr>),
      nports = 1, closeNotifications = [],
      trace = [StopHeartbeat, PortOpened 0 ''COM7'',
               Emit (ConnectEvent \<lparr>deviceName = ''Serial (COM7)'', result = FirmwareErrors\<rparr>),
               ConnectSettled (Inr \<lparr>deviceName = ''Serial (COM7)'', result = FirmwareErrors\<rparr>),
               PortClosed 0, Emit DisconnectEvent]\<rparr>"
  by (simp add: unpluggedWhileSending_def connectedClient_eq segment_defs Let_def)

text \<open>
  C3, as amended. In the gated path the check of \<open>isConnected()\<close> is part of the
  callback that \<open>runExclusive\<close> runs: it is made after the gate is acquired. A send
  that finds the gate held is queued without any check. When the gate is released
  to a queue while the session is not connected, the queued sends are rejected with
  "Not connected" there, in order, and the gate ends free. A send that finds the gate
  free while the session is not connected is rejected with "Not connected" and leaves
  the gate as it found it.
\<close>

theorem sendRaw_checks_inside_gate:
  "(mutexLocked s \<longrightarrow> sendRaw d False s = s\<lparr>mutexQueue := mutexQueue s @ [d]\<rparr>)
   \<and> (\<not> isConnected s \<longrightarrow>
        mutex_release (s\<lparr>mutexQueue := d # q\<rparr>) =
          s\<lparr>mutexLocked := False, mutexQueue := [],
            trace := trace s @ notConnected d # map notConnected q\<rparr>)
   \<and> (\<not> mutexLocked s \<and> mutexQueue s = [] \<and> \<not> isConnected s \<longrightarrow>
        trace (sendRaw d False s) = trace s @ [notConnected d]
        \<and> mutexLocked (sendRaw d False s) = mutexLocked s
        \<and> mutexQueue (sendRaw d False s) = mutexQueue s)"
  by (simp add: sendRaw_queued sendRaw_free_disconnected mutex_release_def
        release_to_disconnected isConnected_def del: release_to.simps)

theorem sendRaw_checks_inside_gate_witness:
  "mutexLocked unpluggedWhileSending \<and> \<not> isConnected unpluggedWhileSending
   \<and> mutexQueue unpluggedWhileSending = []
   \<and> mutexQueue (sendRaw [2] False unpluggedWhileSending) = [[2]]
   \<and> trace (mutex_release (sendRaw [2] False unpluggedWhileSending)) =
       trace unpluggedWhileSending @ [notConnected [2]]
   \<and> \<not> mutexLocked freshClient \<and> mutexQueue freshClient = [] \<and> \<not> isConnected freshClient
   \<and> trace (sendRaw [2] False freshClient) = [notConnected [2]]
   \<and> mutexQueue (sendRaw [2] False freshClient) = []"
proof -
  have u: "mutexLocked unpluggedWhileSending" "\<not> isConnected unpluggedWhileSending"
      "mutexQueue unpluggedWhileSending = []"
    by (simp_all add: unpluggedWhileSending_eq isConnected_def)
  have f: "\<not> mutexLocked freshClient" "mutexQueue freshClient = []" "\<not> isConnected freshClient"
      "trace freshClient = []"
    by (simp_all add: freshClient_def newClient_def isConnected_def)
  note t1 = sendRaw_checks_inside_gate [of unpluggedWhileSending "[2]" "[]"]
  note t2 = sendRaw_checks_inside_gate [of freshClient "[2]" "[]"]
  from t1 u have q: "sendRaw [2] False unpluggedWhileSending = unpluggedWhileSending\<lparr>mutexQueue := [[2]]\<rparr>"
    by simp
  from t1 u have "trace (mutex_release (unpluggedWhileSending\<lparr>mutexQueue := [[2]]\<rparr>)) =
       trace unpluggedWhileSending @ [notConnected [2]]"
    by simp
  with q have r: "trace (mutex_release (sendRaw [2] False unpluggedWhileSending)) =
       trace unpluggedWhileSending @ [notConnected [2]]"
    by simp
  from q have q': "mutexQueue (sendRaw [2] False unpluggedWhileSending) = [[2]]" by simp
  from t2 f have g: "trace (sendRaw [2] False freshClient) = [notConnected [2]]"
      "mutexQueue (sendRaw [2] False freshClient) = []"
    by simp_all
  from u f q' r g show ?thesis by blast
qed

text \<open>
  C3 as stated fails: with the gate held by a sleeping send and the session not
  connected, a gated send enters the queue of the gate and no failure is reported;
  it is rejected with "Not connected" only when the sleeping send has finished and
  released the gate.
\<close>

theorem sendRaw_failing_send_is_queued_counterexample:
  "\<not> isConnected unpluggedWhileSending
   \<and> mutexQueue unpluggedWhileSending = []
   \<and> mutexQueue (step (CallSendRaw [2] False) unpluggedWhileSending) = [[2]]
   \<and> trace (step (CallSendRaw [2] False) unpluggedWhileSending) = trace unpluggedWhileSending
   \<and> trace (run [CallSendRaw [2] False, Advance 10, TimerFires 0] unpluggedWhileSending) =
       trace unpluggedWhileSending @
         [SendRawSettled [1] (Some (Error ''WriteFailed'')), notConnected [2]]"
  by (simp add: unpluggedWhileSending_eq segment_defs Let_def notConnected_def)

text \<open>
  C2, as amended. The check of \<open>isConnected()\<close> is made when the body of \<open>send\<close> runs:
  at the call for a forced send and for a gated send that finds the gate free, at
  the release of the gate for a queued send. A send whose check finds the session
  not connected is rejected with "Not connected" and writes nothing: the forced
  call and the gated call on a free gate are rejected at once; a gated call on a
  held gate is queued; a release of the gate rejects every queued send in order.
  None of these steps writes to the transport or starts a timer.
\<close>

theorem sendRaw_rejected_when_check_fails:
  assumes "\<not> isConnected s"
  shows "sendRaw d True s = s\<lparr>trace := trace s @ [notConnected d]\<rparr>
       \<and> (\<not> mutexLocked s \<longrightarrow>
            trace (sendRaw d False s) = trace s @ notConnected d # map notConnected (mutexQueue s)
            \<and> sleeping (sendRaw d False s) = sleeping s)
       \<and> (mutexLocked s \<longrightarrow> sendRaw d False s = s\<lparr>mutexQueue := mutexQueue s @ [d]\<rparr>)
       \<and> (\<forall>q. trace (mutex_release (s\<lparr>mutexQueue := q\<rparr>)) = trace s @ map notConnected q
              \<and> sleeping (mutex_release (s\<lparr>mutexQueue := q\<rparr>)) = sleeping s)
       \<and> writes (trace (sendRaw d force s)) = writes (trace s)
       \<and> (\<forall>q. writes (trace (mutex_release (s\<lparr>mutexQueue := q\<rparr>))) = writes (trace s))"
proof -
  have a: "sendRaw d True s = s\<lparr>trace := trace s @ [notConnected d]\<rparr>"
    using assms by (rule sendRaw_force_disconnected)
  have b: "\<not> mutexLocked s \<longrightarrow>
            trace (sendRaw d False s) = trace s @ notConnected d # map notConnected (mutexQueue s)
            \<and> sleeping (sendRaw d False s) = sleeping s"
    using assms by (simp add: sendRaw_free_disconnected)
  have c: "mutexLocked s \<longrightarrow> sendRaw d False s = s\<lparr>mutexQueue := mutexQueue s @ [d]\<rparr>"
    by (simp add: sendRaw_queued)
  have r: "mutex_release (s\<lparr>mutexQueue := q\<rparr>) =
      s\<lparr>mutexLocked := False, mutexQueue := [], trace := trace s @ map notConnected q\<rparr>" for q
    using assms
    by (simp add: mutex_release_def release_to_disconnected isConnected_def del: release_to.simps)
  have e: "\<forall>q. trace (mutex_release (s\<lparr>mutexQueue := q\<rparr>)) = trace s @ map notConnected q
              \<and> sleeping (mutex_release (s\<lparr>mutexQueue := q\<rparr>)) = sleeping s"
    by (simp add: r)
  have f: "writes (trace (sendRaw d force s)) = writes (trace s)"
  proof (cases force)
    case True
    then show ?thesis using a by (simp add: writes_append notConnected_def)
  next
    case False
    then show ?thesis using b c
      by (cases "mutexLocked s") (simp_all add: writes_append notConnected_def writes_notConnected)
  qed
  have g: "\<forall>q. writes (trace (mutex_release (s\<lparr>mutexQueue := q\<rparr>))) = writes (trace s)"
    by (simp add: r writes_append writes_notConnected)
  from a b c e f g show ?thesis by blast
qed

theorem sendRaw_rejected_when_check_fails_witness:
  "\<not> isConnected freshClient
   \<and> trace (sendRaw [7] True freshClient) = [notConnected [7]]
   \<and> trace (sendRaw [7] False freshClient) = [notConnected [7]]
   \<and> writes (trace (sendRaw [7] False freshClient)) = []
   \<and> \<not> isConnected unpluggedWhileSending
   \<and> mutexQueue (sendRaw [7] False unpluggedWhileSending) = [[7]]
   \<and> writes (trace (sendRaw [7] False unpluggedWhileSending)) = []"
proof -
  have f: "\<not> isConnected freshClient" "\<not> mutexLocked freshClient" "mutexQueue freshClient = []"
      "trace freshClient = []"
    by (simp_all add: freshClient_def newClient_def isConnected_def)
  have u: "\<not> isConnected unpluggedWhileSending" "mutexLocked unpluggedWhileSending"
      "mutexQueue unpluggedWhileSending = []" "writes (trace unpluggedWhileSending) = []"
    by (simp_all add: unpluggedWhileSending_eq isConnected_def)
  note t1 = sendRaw_rejected_when_check_fails [OF f(1), of "[7]" False]
  note t2 = sendRaw_rejected_when_check_fails [OF u(1), of "[7]" False]
  from t1 have "sendRaw [7] True freshClient = freshClient\<lparr>trace := trace freshClient @ [notConnected [7]]\<rparr>"
    by blast
  then have 1: "trace (sendRaw [7] True freshClient) = [notConnected [7]]"
    by (simp add: f)
  from t1 f have 2: "trace (sendRaw [7] False freshClient) = [notConnected [7]]"
    by simp
  from t1 have "writes (trace (sendRaw [7] False freshClient)) = writes (trace freshClient)"
    by blast
  then have 3: "writes (trace (sendRaw [7] False freshClient)) = []"
    by (simp add: f)
  from t2 u have "sendRaw [7] False unpluggedWhileSending = unpluggedWhileSending\<lparr>mutexQueue := mutexQueue unpluggedWhileSending @ [[7]]\<rparr>"
    by blast
  then have 4: "mutexQueue (sendRaw [7] False unpluggedWhileSending) = [[7]]"
    by (simp add: u)
  from t2 have "writes (trace (sendRaw [7] False unpluggedWhileSending)) = writes (trace unpluggedWhileSending)"
    by blast
  then have 5: "writes (trace (sendRaw [7] False unpluggedWhileSending)) = []"
    by (simp add: u)
  from f(1) u(1) 1 2 3 4 5 show ?thesis by blast
qed

text \<open>
  C2 as stated fails for a send that is queued at the gate. The session is not
  connected and a sleeping send holds the gate when \<open>sendRaw([2])\<close> is called; before
  the gate is released, \<open>connect()\<close> opens a new port. The queued send is checked at
  the release, finds the session connected, and its packet is written.
\<close>

theorem sendRaw_queued_send_outlives_check_counterexample:
  "\<not> isConnected unpluggedWhileSending
   \<and> writes (trace unpluggedWhileSending) = []
   \<and> trace (run [CallSendRaw [2] False, CallConnect, DisconnectReturns 1, OpenSucceeds 1,
                 Advance 10, TimerFires 0, Advance 10, TimerFires 0] unpluggedWhileSending) =
       trace unpluggedWhileSending @
         [StopHeartbeat, PortOpened 1 ''COM7'',
          PortWrite 1 [1], Emit (RawPacketSentEvent [1]), SendRawSettled [1] None,
          PortWrite 1 [2], Emit (RawPacketSentEvent [2]), SendRawSettled [2] None]"
  by (simp add: unpluggedWhileSending_eq segment_defs Let_def)
subsection \<open>The gate is first in, first out\<close>

lemma issued_Cons: "issued (e # es) = issued [e] @ issued es"
  by (cases e) auto

lemma run_append: "run (es @ es') s = run es' (run es s)"
  by (induction es arbitrary: s) auto

lemma sending_call:
  assumes "sending h s"
  shows "sending h (sendRaw d False s)
       \<and> writes (trace (sendRaw d False s)) @ pendingData (sendRaw d False s) =
           writes (trace s) @ pendingData s @ [d]
       \<and> length (pendingData (sendRaw d False s)) = Suc (length (pendingData s))
       \<and> packetIntervalMs (sendRaw d False s) = packetIntervalMs s"
proof (cases "mutexLocked s")
  case True
  then show ?thesis using assms
    by (auto simp: sendRaw_queued sending_def gateHeldBySleeper_def pendingData_def isConnected_def
          split: list.splits)
next
  case False
  moreover from assms have "isConnected s" by (simp add: sending_def)
  ultimately show ?thesis using assms
    by (auto simp: sendRaw_free_connected sending_def gateHeldBySleeper_def pendingData_def
          isConnected_def split: list.splits)
qed

lemma sending_fire:
  assumes "sending h s" and "sleeping s = [sl]" and "s_due sl \<le> now s"
  shows "sending h (timerFires 0 s)
       \<and> writes (trace (timerFires 0 s)) @ pendingData (timerFires 0 s) =
           writes (trace s) @ pendingData s
       \<and> length (pendingData (timerFires 0 s)) < length (pendingData s)
       \<and> packetIntervalMs (timerFires 0 s) = packetIntervalMs s"
proof -
  let ?s1 = "s\<lparr>sleeping := []\<rparr>"
  let ?s2 = "?s1\<lparr>trace := trace s @ [PortWrite h (s_data sl), Emit (RawPacketSentEvent (s_data sl)),
                                    SendRawSettled (s_data sl) None]\<rparr>"
  from assms have g: "s_gated sl" "isConnected s" "device s = Some h" "port_isOpen (ports s h)"
    by (simp_all add: sending_def gateHeldBySleeper_def)
  have "timerFires 0 s = send_finish sl ?s1"
    using assms by (simp add: timerFires_def)
  also have "\<dots> = mutex_release ?s2"
    using g by (simp add: send_finish_written)
  also have "\<dots> = release_to (mutexQueue s) ?s2"
    by (simp add: mutex_release_def)
  finally have eq: "timerFires 0 s = release_to (mutexQueue s) ?s2" .
  show ?thesis
  proof (cases "mutexQueue s")
    case Nil
    then show ?thesis using assms g
      by (simp add: eq sending_def gateHeldBySleeper_def pendingData_def isConnected_def writes_append)
  next
    case (Cons d q)
    have c: "isConnected ?s2" using g by (simp add: isConnected_def)
    show ?thesis using assms g
      by (simp add: eq Cons release_to_connected [OF c] sending_def gateHeldBySleeper_def
            pendingData_def isConnected_def writes_append del: release_to.simps)
  qed
qed

lemma sending_timer:
  assumes "sending h s"
  shows "sending h (timerFires i s)
       \<and> writes (trace (timerFires i s)) @ pendingData (timerFires i s) =
           writes (trace s) @ pendingData s
       \<and> length (pendingData (timerFires i s)) \<le> length (pendingData s)
       \<and> packetIntervalMs (timerFires i s) = packetIntervalMs s"
proof (cases "i < length (sleeping s) \<and> s_due (sleeping s ! i) \<le> now s")
  case False
  then show ?thesis using assms by (auto simp: timerFires_def)
next
  case True
  from assms have "length (sleeping s) \<le> 1"
    by (auto simp: sending_def gateHeldBySleeper_def split: list.splits)
  with True obtain sl where sl: "sleeping s = [sl]" "i = 0"
    by (cases "sleeping s") auto
  with True have "s_due sl \<le> now s" by simp
  from sending_fire [OF assms sl(1) this] sl(2) show ?thesis by simp
qed

lemma sending_step:
  assumes "sending h s" and "gateTraffic e"
  shows "sending h (step e s)
       \<and> writes (trace (step e s)) @ pendingData (step e s) =
           writes (trace s) @ pendingData s @ issued [e]
       \<and> length (pendingData (step e s)) \<le> length (pendingData s) + length (issued [e])
       \<and> packetIntervalMs (step e s) = packetIntervalMs s"
proof (cases e)
  case (CallSendRaw d force)
  with assms(2) have "\<not> force" by simp
  with CallSendRaw sending_call [OF assms(1), of d] show ?thesis by simp
next
  case (Advance dt)
  with assms(1) show ?thesis
    by (auto simp: sending_def gateHeldBySleeper_def pendingData_def isConnected_def
          split: list.splits)
next
  case (TimerFires i)
  with sending_timer [OF assms(1), of i] show ?thesis by simp
qed (use assms(2) in simp_all)

lemma sending_run:
  "sending h s \<Longrightarrow> \<forall>e\<in>set es. gateTraffic e \<Longrightarrow>
   sending h (run es s)
   \<and> writes (trace (run es s)) @ pendingData (run es s) = writes (trace s) @ pendingData s @ issued es
   \<and> length (pendingData (run es s)) \<le> length (pendingData s) + length (issued es)
   \<and> packetIntervalMs (run es s) = packetIntervalMs s"
proof (induction es arbitrary: s)
  case Nil
  then show ?case by simp
next
  case (Cons e es)
  from Cons.prems have st: "sending h (step e s)"
      "writes (trace (step e s)) @ pendingData (step e s) = writes (trace s) @ pendingData s @ issued [e]"
      "length (pendingData (step e s)) \<le> length (pendingData s) + length (issued [e])"
      "packetIntervalMs (step e s) = packetIntervalMs s"
    using sending_step [of h s e] by simp_all
  from Cons.prems have "\<forall>e\<in>set es. gateTraffic e" by simp
  from Cons.IH [OF st(1) this] st(2,3,4) show ?case
    by (simp add: issued_Cons [of e es])
qed

lemma sending_rounds:
  "sending h s \<Longrightarrow> length (pendingData s) \<le> n \<Longrightarrow>
   sending h (run (rounds n (packetIntervalMs s)) s)
   \<and> sleeping (run (rounds n (packetIntervalMs s)) s) = []
   \<and> writes (trace (run (rounds n (packetIntervalMs s)) s)) = writes (trace s) @ pendingData s"
proof (induction n arbitrary: s)
  case 0
  then show ?case by (simp add: pendingData_def)
next
  case (Suc n)
  let ?a = "s\<lparr>now := now s + packetIntervalMs s\<rparr>"
  have a: "sending h ?a" "pendingData ?a = pendingData s" "packetIntervalMs ?a = packetIntervalMs s"
      "trace ?a = trace s"
    using Suc.prems(1)
    by (auto simp: sending_def gateHeldBySleeper_def pendingData_def isConnected_def
          split: list.splits)
  show ?case
  proof (cases "sleeping s")
    case Nil
    with Suc.prems(1) have p: "pendingData s = []"
      by (simp add: sending_def gateHeldBySleeper_def pendingData_def)
    from Nil have t: "timerFires 0 ?a = ?a" by (simp add: timerFires_def)
    from p a have "length (pendingData ?a) \<le> n" by simp
    from Suc.IH [OF a(1) this] show ?thesis by (simp add: t p a)
  next
    case (Cons sl rest)
    with Suc.prems(1) have one: "sleeping s = [sl]" "s_due sl \<le> now s + packetIntervalMs s"
      by (auto simp: sending_def gateHeldBySleeper_def split: list.splits)
    then have "sleeping ?a = [sl]" "s_due sl \<le> now ?a" by simp_all
    from sending_fire [OF a(1) this] have f: "sending h (timerFires 0 ?a)"
        "writes (trace (timerFires 0 ?a)) @ pendingData (timerFires 0 ?a) = writes (trace ?a) @ pendingData ?a"
        "length (pendingData (timerFires 0 ?a)) < length (pendingData ?a)"
        "packetIntervalMs (timerFires 0 ?a) = packetIntervalMs ?a"
      by simp_all
    from f(3) a(2) Suc.prems(2) have "length (pendingData (timerFires 0 ?a)) \<le> n" by simp
    from Suc.IH [OF f(1) this] f(2,4) a show ?thesis by simp
  qed
qed

lemma connectedIdle_sending: "connectedIdle h s \<Longrightarrow> sending h s \<and> pendingData s = []"
  by (simp add: connectedIdle_def sending_def gateHeldBySleeper_def pendingData_def)

lemma length_issued: "length (issued es) \<le> length es"
  by (induction es rule: issued.induct) auto

text \<open>
  C1. On a connected session with an open device and a free gate, let any sequence
  of gated \<open>sendRaw\<close> calls be issued, interleaved in any way with the passing of
  time and with timers. At every moment the payloads written to the transport so
  far, followed by the payloads of the sends still under way, are the payloads of
  the calls in call order: the writes are a prefix of the calls, in their order.
  At most one send is between its check and its write. When no send is under way,
  every call has been written; and letting the packet interval pass once per call
  completes every send, with the writes in call order and the gate free again.
\<close>

theorem gated_sends_written_in_call_order:
  assumes "connectedIdle h s" and "\<forall>e\<in>set es. gateTraffic e"
  shows "writes (trace (run es s)) @ pendingData (run es s) = writes (trace s) @ issued es
       \<and> length (sleeping (run es s)) \<le> 1
       \<and> (sleeping (run es s) = [] \<longrightarrow> writes (trace (run es s)) = writes (trace s) @ issued es)
       \<and> writes (trace (run (es @ rounds (length (issued es)) (packetIntervalMs s)) s)) =
           writes (trace s) @ issued es
       \<and> connectedIdle h (run (es @ rounds (length (issued es)) (packetIntervalMs s)) s)"
proof -
  from assms(1) have s: "sending h s" "pendingData s = []"
    by (simp_all add: connectedIdle_sending)
  from sending_run [OF s(1) assms(2)] s(2)
  have r: "sending h (run es s)"
      "writes (trace (run es s)) @ pendingData (run es s) = writes (trace s) @ issued es"
      "packetIntervalMs (run es s) = packetIntervalMs s"
      "length (pendingData (run es s)) \<le> length (issued es)"
    by simp_all
  from r(1) have one: "length (sleeping (run es s)) \<le> 1"
    by (auto simp: sending_def gateHeldBySleeper_def split: list.splits)
  from r(1) have "sleeping (run es s) = [] \<longrightarrow> pendingData (run es s) = []"
    by (auto simp: sending_def gateHeldBySleeper_def pendingData_def)
  with r(2) have two: "sleeping (run es s) = [] \<longrightarrow> writes (trace (run es s)) = writes (trace s) @ issued es"
    by auto
  from sending_rounds [OF r(1) r(4)] r(2,3)
  have f: "sending h (run (es @ rounds (length (issued es)) (packetIntervalMs s)) s)"
      "sleeping (run (es @ rounds (length (issued es)) (packetIntervalMs s)) s) = []"
      "writes (trace (run (es @ rounds (length (issued es)) (packetIntervalMs s)) s)) = writes (trace s) @ issued es"
    by (simp_all add: run_append)
  from f(1,2) have "connectedIdle h (run (es @ rounds (length (issued es)) (packetIntervalMs s)) s)"
    by (simp add: sending_def connectedIdle_def gateHeldBySleeper_def)
  with r(2) one two f(3) show ?thesis by blast
qed

theorem gated_sends_written_in_call_order_witness:
  "connectedIdle 0 connectedClient
   \<and> gateTraffic (CallSendRaw [1] False) \<and> gateTraffic (CallSendRaw [2] False)
   \<and> gateTraffic (Advance 10) \<and> gateTraffic (TimerFires 0) \<and> gateTraffic (CallSendRaw [3] False)
   \<and> writes (trace (run [CallSendRaw [1] False, CallSendRaw [2] False, Advance 10, TimerFires 0,
                          CallSendRaw [3] False] connectedClient))
       @ pendingData (run [CallSendRaw [1] False, CallSendRaw [2] False, Advance 10, TimerFires 0,
                          CallSendRaw [3] False] connectedClient) = [[1], [2], [3]]
   \<and> writes (trace (run ([CallSendRaw [1] False, CallSendRaw [2] False, Advance 10, TimerFires 0,
                          CallSendRaw [3] False] @ rounds 3 10) connectedClient)) = [[1], [2], [3]]"
proof -
  let ?es = "[CallSendRaw [1] False, CallSendRaw [2] False, Advance 10, TimerFires 0,
              CallSendRaw [3] False]"
  have a: "connectedIdle 0 connectedClient"
    by (simp add: connectedIdle_def connectedClient_eq isConnected_def)
  have b: "\<forall>e\<in>set ?es. gateTraffic e" by simp
  have n: "writes (trace connectedClient) = []" "packetIntervalMs connectedClient = 10"
    by (simp_all add: connectedClient_eq)
  have i: "issued ?es = [[1], [2], [3]]" by simp
  have l: "length (issued ?es) = 3" by simp
  have g: "gateTraffic (CallSendRaw [1] False)" "gateTraffic (CallSendRaw [2] False)"
      "gateTraffic (Advance 10)" "gateTraffic (TimerFires 0)" "gateTraffic (CallSendRaw [3] False)"
    by simp_all
  note t = gated_sends_written_in_call_order [OF a b]
  from t have "writes (trace (run ?es connectedClient)) @ pendingData (run ?es connectedClient)
      = writes (trace connectedClient) @ issued ?es"
    by blast
  then have 1: "writes (trace (run ?es connectedClient)) @ pendingData (run ?es connectedClient)
      = [[1], [2], [3]]"
    by (simp only: n i append_Nil)
  from t have "writes (trace (run (?es @ rounds (length (issued ?es)) (packetIntervalMs connectedClient)) connectedClient))
      = writes (trace connectedClient) @ issued ?es"
    by blast
  then have "writes (trace (run (?es @ rounds 3 10) connectedClient)) = [] @ issued ?es"
    by (simp only: n l)
  then have 2: "writes (trace (run (?es @ rounds 3 10) connectedClient)) = [[1], [2], [3]]"
    by (simp only: i append_Nil)
  from a g 1 2 show ?thesis by blast
qed
subsection \<open>What every reachable state satisfies\<close>

lemma closes_append: "closes (xs @ ys) = closes xs + closes ys"
  by (induction xs rule: closes.induct) auto

lemma disconnects_append: "disconnects (xs @ ys) = disconnects xs + disconnects ys"
  by (induction xs rule: disconnects.induct) auto

lemma closes_notConnected: "closes (map notConnected q) = 0"
  by (induction q) (simp_all add: notConnected_def)

lemma disconnects_notConnected: "disconnects (map notConnected q) = 0"
  by (induction q) (simp_all add: notConnected_def)

lemma link_release_to: "link (release_to q s) = link s"
proof (cases "isConnected s")
  case True
  then show ?thesis
    by (cases q) (simp_all add: release_to_connected link_def del: release_to.simps(2))
next
  case False
  then show ?thesis
    by (simp add: release_to_disconnected link_def closes_append disconnects_append
          closes_notConnected disconnects_notConnected)
qed

lemma link_mutex_release: "link (mutex_release s) = link s"
  by (simp add: mutex_release_def link_release_to)

lemma link_sendRaw: "link (sendRaw d force s) = link s"
proof (cases force)
  case True
  then show ?thesis
    by (cases "isConnected s")
      (simp_all add: sendRaw_force_connected sendRaw_force_disconnected link_def
         closes_append disconnects_append notConnected_def)
next
  case False
  show ?thesis
  proof (cases "mutexLocked s")
    case True
    with False show ?thesis by (simp add: sendRaw_queued link_def)
  next
    case free: False
    with False show ?thesis
      by (cases "isConnected s")
        (simp_all add: sendRaw_free_connected sendRaw_free_disconnected link_def
           closes_append disconnects_append notConnected_def closes_notConnected
           disconnects_notConnected)
  qed
qed

lemma link_send_finish: "link (send_finish sl s) = link s"
proof -
  have a: "link (settle_send d r s) = link s" for d r s
    by (simp add: settle_send_def link_def closes_append disconnects_append)
  have b: "link (emit (RawPacketSentEvent d) s) = link s" for d s
    by (simp add: emit_def link_def closes_append disconnects_append)
  have c: "link (snd (device_write d s)) = link s" for d s
    by (simp add: device_write_def port_write_def link_def closes_append disconnects_append
          split: option.splits)
  have "link (case device_write (s_data sl) s of
                  (Some e, s1) \<Rightarrow> settle_send (s_data sl) (Some e) s1
                | (None, s1) \<Rightarrow>
                    settle_send (s_data sl) None (emit (RawPacketSentEvent (s_data sl)) s1)) = link s"
    using c [of "s_data sl" s]
    by (cases "device_write (s_data sl) s") (auto simp: a b split: option.splits)
  then show ?thesis
    by (simp add: send_finish_def Let_def link_mutex_release)
qed

lemma link_timerFires: "link (timerFires i s) = link s"
proof -
  have "link (s\<lparr>sleeping := xs\<rparr>) = link s" for xs
    by (simp add: link_def)
  then show ?thesis by (simp add: timerFires_def link_send_finish)
qed

lemma link_dataReady: "link (dataReady s) = link s"
proof -
  have q: "closes acts = 0 \<and> disconnects acts = 0" if "\<forall>a\<in>set acts. quiet a" for acts
    using that
  proof (induction acts)
    case Nil
    then show ?case by simp
  next
    case (Cons a acts)
    then show ?case by (cases a) auto
  qed
  show ?thesis
  proof (cases "device s")
    case None
    then show ?thesis by (simp add: dataReady_def)
  next
    case (Some h)
    from dataReady_trace [OF Some] q [OF drain_quiet]
    have "closes (trace (dataReady s)) = closes (trace s)"
        "disconnects (trace (dataReady s)) = disconnects (trace s)"
      by (simp_all add: closes_append disconnects_append)
    then show ?thesis using dataReady_frame [of s]
      by (simp add: link_def)
  qed
qed

lemma link_portReceives: "link (portReceives h items s) = link s"
proof -
  have "link (s\<lparr>ports := (ports s)(h := (ports s h)\<lparr>buffered := b\<rparr>)\<rparr>) = link s" for b
    by (auto simp: link_def)
  then show ?thesis by (simp add: portReceives_def Let_def link_dataReady)
qed

lemma wellLinked_link: "link s' = link s \<Longrightarrow> wellLinked s' = wellLinked s"
proof -
  assume l: "link s' = link s"
  then have a: "device s' = device s" "nports s' = nports s"
      "closeNotifications s' = closeNotifications s" "isOpen s' = isOpen s"
      "closes (trace s') = closes (trace s)"
      "disconnects (trace s') = disconnects (trace s)"
    by (simp_all add: link_def)
  from l have "(\<lambda>h. port_isOpen (ports s' h)) = (\<lambda>h. port_isOpen (ports s h))"
      "(\<lambda>h. closeObserver (ports s' h)) = (\<lambda>h. closeObserver (ports s h))"
    by (simp_all add: link_def)
  then have b: "port_isOpen (ports s' h) = port_isOpen (ports s h)"
      "closeObserver (ports s' h) = closeObserver (ports s h)" for h
    by (metis)+
  show ?thesis by (simp add: wellLinked_def a b)
qed

lemma wellLinkedI:
  assumes "\<And>h. device s = Some h \<Longrightarrow> h < nports s"
    and "\<And>h. port_isOpen (ports s h) \<or> h \<in> set (closeNotifications s) \<Longrightarrow> closeObserver (ports s h)"
    and "isOpen s \<Longrightarrow> \<exists>h. device s = Some h \<and> (port_isOpen (ports s h) \<or> h \<in> set (closeNotifications s))"
    and "disconnects (trace s) + length (closeNotifications s) = closes (trace s)"
  shows "wellLinked s"
  unfolding wellLinked_def using assms by blast

lemma wellLinkedD:
  assumes "wellLinked s"
  shows "device s = Some h \<Longrightarrow> h < nports s"
    and "port_isOpen (ports s h) \<or> h \<in> set (closeNotifications s) \<Longrightarrow> closeObserver (ports s h)"
    and "isOpen s \<Longrightarrow> \<exists>h. device s = Some h \<and> (port_isOpen (ports s h) \<or> h \<in> set (closeNotifications s))"
    and "disconnects (trace s) + length (closeNotifications s) = closes (trace s)"
  using assms unfolding wellLinked_def by blast+

lemma wellLinked_newClient: "wellLinked (newClient i dbg dec)"
  by (simp add: wellLinked_def newClient_def closedPort_def)

lemma wellLinked_connects: "wellLinked (s\<lparr>connects := c\<rparr>) = wellLinked s"
  by (simp add: wellLinked_def)

lemma wellLinked_setPhase: "wellLinked (setPhase k ph s) = wellLinked s"
  by (simp add: setPhase_def wellLinked_connects)

lemma wellLinked_transport_closes:
  assumes w: "wellLinked s"
  shows "wellLinked (transport_closes h s)"
proof (cases "port_isOpen (ports s h)")
  case False
  then show ?thesis using w by (simp add: transport_closes_def)
next
  case True
  let ?s = "s\<lparr>ports := (ports s)(h := (ports s h)\<lparr>port_isOpen := False\<rparr>),
             closeNotifications := closeNotifications s @ [h],
             trace := trace s @ [PortClosed h]\<rparr>"
  have eq: "transport_closes h s = ?s" using True by (simp add: transport_closes_def)
  have "wellLinked ?s"
  proof (rule wellLinkedI)
    fix k assume "device ?s = Some k"
    then show "k < nports ?s" using wellLinkedD(1) [OF w] by simp
  next
    fix k assume "port_isOpen (ports ?s k) \<or> k \<in> set (closeNotifications ?s)"
    then have "port_isOpen (ports s k) \<or> k \<in> set (closeNotifications s)"
      using True by (auto split: if_splits)
    then have "closeObserver (ports s k)" by (rule wellLinkedD(2) [OF w])
    then show "closeObserver (ports ?s k)" by auto
  next
    assume "isOpen ?s"
    then have "isOpen s" by simp
    from wellLinkedD(3) [OF w this] obtain k where
      k: "device s = Some k" "port_isOpen (ports s k) \<or> k \<in> set (closeNotifications s)"
      by blast
    then have "device ?s = Some k \<and> (port_isOpen (ports ?s k) \<or> k \<in> set (closeNotifications ?s))"
      by auto
    then show "\<exists>k. device ?s = Some k \<and> (port_isOpen (ports ?s k) \<or> k \<in> set (closeNotifications ?s))"
      by blast
  next
    show "disconnects (trace ?s) + length (closeNotifications ?s) = closes (trace ?s)"
      using wellLinkedD(4) [OF w] by (simp add: closes_append disconnects_append)
  qed
  then show ?thesis by (simp only: eq)
qed

lemma link_stopHeartbeat: "link (stopHeartbeat s) = link s"
  by (simp add: stopHeartbeat_def link_def closes_append disconnects_append)

lemma wellLinked_disconnect: "wellLinked s \<Longrightarrow> wellLinked (disconnect s)"
proof -
  assume w: "wellLinked s"
  then have "wellLinked (stopHeartbeat s)"
    by (simp only: wellLinked_link [OF link_stopHeartbeat])
  then show ?thesis
    by (simp add: disconnect_def Let_def wellLinked_transport_closes split: option.splits)
qed

lemma disconnect_open:
  "port_isOpen (ports (disconnect s) h) = (port_isOpen (ports s h) \<and> device s \<noteq> Some h)"
  by (simp add: disconnect_def stopHeartbeat_def transport_closes_def Let_def split: option.splits)

lemma disconnect_frame:
  "device (disconnect s) = device s \<and> isOpen (disconnect s) = isOpen s
   \<and> connects (disconnect s) = connects s \<and> portName (disconnect s) = portName s
   \<and> nports (disconnect s) = nports s"
  by (simp add: disconnect_def stopHeartbeat_def transport_closes_def Let_def split: option.splits)


lemma disconnect_notifications:
  "closeNotifications (disconnect s) =
     closeNotifications s @
       (case device s of None \<Rightarrow> []
        | Some h \<Rightarrow> if port_isOpen (ports s h) then [h] else [])"
  by (simp add: disconnect_def stopHeartbeat_def transport_closes_def Let_def split: option.splits)

lemma wellLinked_trace:
  assumes "wellLinked s" and "closes acts = 0" and "disconnects acts = 0"
  shows "wellLinked (s\<lparr>trace := trace s @ acts\<rparr>)"
proof -
  have "link (s\<lparr>trace := trace s @ acts\<rparr>) = link s"
    using assms(2,3) by (simp add: link_def closes_append disconnects_append)
  from wellLinked_link [OF this] assms(1) show ?thesis by simp
qed

lemma wellLinked_settle_connect:
  assumes "wellLinked s"
  shows "wellLinked (settle_connect k r s)"
proof -
  have "wellLinked (s\<lparr>trace := trace s @ [ConnectSettled r]\<rparr>)"
    using assms by (rule wellLinked_trace) simp_all
  then show ?thesis by (simp add: settle_connect_def wellLinked_setPhase)
qed

lemma wellLinked_flag_down:
  assumes w: "wellLinked s"
  shows "wellLinked (s\<lparr>isOpen := False\<rparr>)"
proof (rule wellLinkedI)
  fix k assume "device (s\<lparr>isOpen := False\<rparr>) = Some k"
  then show "k < nports (s\<lparr>isOpen := False\<rparr>)" using wellLinkedD(1) [OF w] by simp
next
  fix k assume "port_isOpen (ports (s\<lparr>isOpen := False\<rparr>) k)
      \<or> k \<in> set (closeNotifications (s\<lparr>isOpen := False\<rparr>))"
  then show "closeObserver (ports (s\<lparr>isOpen := False\<rparr>) k)"
    using wellLinkedD(2) [OF w, of k] by simp
next
  assume "isOpen (s\<lparr>isOpen := False\<rparr>)"
  then show "\<exists>h. device (s\<lparr>isOpen := False\<rparr>) = Some h
      \<and> (port_isOpen (ports (s\<lparr>isOpen := False\<rparr>) h)
          \<or> h \<in> set (closeNotifications (s\<lparr>isOpen := False\<rparr>)))"
    by simp
next
  show "disconnects (trace (s\<lparr>isOpen := False\<rparr>)) + length (closeNotifications (s\<lparr>isOpen := False\<rparr>))
      = closes (trace (s\<lparr>isOpen := False\<rparr>))"
    using wellLinkedD(4) [OF w] by simp
qed

lemma dispatchClose_observed:
  assumes w: "wellLinked s" and n: "closeNotifications s = h # hs"
  shows "dispatchClose s =
           s\<lparr>closeNotifications := hs, isOpen := False, trace := trace s @ [Emit DisconnectEvent]\<rparr>"
proof -
  have "closeObserver (ports s h)" using wellLinkedD(2) [OF w, of h] n by simp
  then show ?thesis using n by (simp add: dispatchClose_def onClose_def emit_def Let_def)
qed

lemma wellLinked_dispatchClose:
  assumes w: "wellLinked s"
  shows "wellLinked (dispatchClose s)"
proof (cases "closeNotifications s")
  case Nil
  then show ?thesis using w by (simp add: dispatchClose_def)
next
  case (Cons h hs)
  let ?s = "s\<lparr>closeNotifications := hs, isOpen := False, trace := trace s @ [Emit DisconnectEvent]\<rparr>"
  have "wellLinked ?s"
  proof (rule wellLinkedI)
    fix k assume "device ?s = Some k"
    then show "k < nports ?s" using wellLinkedD(1) [OF w] by simp
  next
    fix k assume "port_isOpen (ports ?s k) \<or> k \<in> set (closeNotifications ?s)"
    then have "port_isOpen (ports s k) \<or> k \<in> set (closeNotifications s)"
      using Cons by auto
    then show "closeObserver (ports ?s k)" using wellLinkedD(2) [OF w, of k] by simp
  next
    assume "isOpen ?s"
    then show "\<exists>k. device ?s = Some k \<and> (port_isOpen (ports ?s k) \<or> k \<in> set (closeNotifications ?s))"
      by simp
  next
    show "disconnects (trace ?s) + length (closeNotifications ?s) = closes (trace ?s)"
      using wellLinkedD(4) [OF w] Cons by (simp add: closes_append disconnects_append)
  qed
  then show ?thesis by (simp only: dispatchClose_observed [OF w Cons])
qed

lemma wellLinked_connect_start: "wellLinked s \<Longrightarrow> wellLinked (connect_start s)"
  by (simp add: connect_start_def Let_def wellLinked_connects wellLinked_disconnect)

lemma wellLinked_connect_resumed: "wellLinked s \<Longrightarrow> wellLinked (connect_resumed k s)"
  by (cases "phaseOf s k")
     (simp_all add: connect_resumed_def wellLinked_settle_connect wellLinked_setPhase
        split: option.splits)

lemma connect_opened_eq:
  "phaseOf s k = AwaitOpen p \<Longrightarrow>
   connect_opened k s =
     s\<lparr>ports := (ports s)(nports s := \<lparr>path = p, port_isOpen = True, closeObserver = True,
                                        readableObserver = True, buffered = []\<rparr>),
       nports := Suc (nports s), trace := trace s @ [PortOpened (nports s) p],
       isOpen := True, device := Some (nports s), connects := (connects s)[k := AwaitNegotiate]\<rparr>"
  by (simp add: connect_opened_def serialOpenAsync_def setPhase_def Let_def)

lemma wellLinked_connect_opened:
  assumes w: "wellLinked s"
  shows "wellLinked (connect_opened k s)"
proof (cases "\<exists>p. phaseOf s k = AwaitOpen p")
  case False
  then show ?thesis using w by (cases "phaseOf s k") (simp_all add: connect_opened_def)
next
  case True
  then obtain p where p: "phaseOf s k = AwaitOpen p" by blast
  let ?s = "s\<lparr>ports := (ports s)(nports s := \<lparr>path = p, port_isOpen = True, closeObserver = True,
                                        readableObserver = True, buffered = []\<rparr>),
       nports := Suc (nports s), trace := trace s @ [PortOpened (nports s) p],
       isOpen := True, device := Some (nports s), connects := (connects s)[k := AwaitNegotiate]\<rparr>"
  have "wellLinked ?s"
  proof (rule wellLinkedI)
    fix h assume "device ?s = Some h"
    then show "h < nports ?s" by auto
  next
    fix h assume a: "port_isOpen (ports ?s h) \<or> h \<in> set (closeNotifications ?s)"
    show "closeObserver (ports ?s h)"
    proof (cases "h = nports s")
      case True
      then show ?thesis by simp
    next
      case False
      with a have "port_isOpen (ports s h) \<or> h \<in> set (closeNotifications s)" by simp
      then show ?thesis using wellLinkedD(2) [OF w, of h] False by simp
    qed
  next
    assume "isOpen ?s"
    show "\<exists>h. device ?s = Some h \<and> (port_isOpen (ports ?s h) \<or> h \<in> set (closeNotifications ?s))"
      by simp
  next
    show "disconnects (trace ?s) + length (closeNotifications ?s) = closes (trace ?s)"
      using wellLinkedD(4) [OF w] by (simp add: closes_append disconnects_append)
  qed
  then show ?thesis by (simp only: connect_opened_eq [OF p])
qed

lemma wellLinked_connect_open_failed: "wellLinked s \<Longrightarrow> wellLinked (connect_open_failed k e s)"
  by (cases "phaseOf s k") (simp_all add: connect_open_failed_def wellLinked_settle_connect)

lemma wellLinked_connect_negotiated: "wellLinked s \<Longrightarrow> wellLinked (connect_negotiated k s)"
  by (cases "phaseOf s k") (simp_all add: connect_negotiated_def wellLinked_setPhase)

lemma wellLinked_connect_catch: "wellLinked s \<Longrightarrow> wellLinked (connect_catch k e s)"
  by (simp add: connect_catch_def wellLinked_setPhase wellLinked_disconnect wellLinked_flag_down)

lemma wellLinked_connect_finish:
  assumes w: "wellLinked s"
  shows "wellLinked (connect_finish k s)"
proof -
  have "wellLinked (s\<lparr>trace := trace s @ [Emit (ConnectEvent r)]\<rparr>)" for r
    using w by (rule wellLinked_trace) simp_all
  then have "wellLinked (settle_connect k (Inr r) (emit (ConnectEvent r) s))" for r
    by (simp add: emit_def wellLinked_settle_connect)
  then show ?thesis using w
    by (cases "phaseOf s k") (simp_all add: connect_finish_def Let_def)
qed

lemma wellLinked_step:
  assumes w: "wellLinked s"
  shows "wellLinked (step e s)"
proof (cases e)
  case (CallSetPort p)
  have "link (setPort p s) = link s" by (simp add: setPort_def link_def)
  from wellLinked_link [OF this] w CallSetPort show ?thesis by simp
next
  case (SetConnectResult r)
  have "link (s\<lparr>connectResult := r\<rparr>) = link s" by (simp add: link_def)
  from wellLinked_link [OF this] w SetConnectResult show ?thesis by simp
next
  case CallStartHeartbeat
  have "link (s\<lparr>heartbeatRunning := True\<rparr>) = link s" by (simp add: link_def)
  from wellLinked_link [OF this] w CallStartHeartbeat show ?thesis by simp
next
  case (Advance dt)
  have "link (s\<lparr>now := now s + dt\<rparr>) = link s" by (simp add: link_def)
  from wellLinked_link [OF this] w Advance show ?thesis by simp
next
  case (InitialNegotiateRejects k err)
  then show ?thesis using w
    by (cases "phaseOf s k") (simp_all add: connect_negotiate_failed_def wellLinked_connect_catch)
next
  case (FetchPrinterInfoRejects k err)
  then show ?thesis using w
    by (cases "phaseOf s k") (simp_all add: connect_info_failed_def wellLinked_connect_catch)
next
  case CallConnect
  then show ?thesis using w by (simp add: wellLinked_connect_start)
next
  case (DisconnectReturns k)
  then show ?thesis using w by (simp add: wellLinked_connect_resumed)
next
  case (OpenSucceeds k)
  then show ?thesis using w by (simp add: wellLinked_connect_opened)
next
  case (OpenFails k err)
  then show ?thesis using w by (simp add: wellLinked_connect_open_failed)
next
  case (InitialNegotiateResolves k)
  then show ?thesis using w by (simp add: wellLinked_connect_negotiated)
next
  case (FetchPrinterInfoResolves k)
  then show ?thesis using w by (simp add: wellLinked_connect_finish)
next
  case CallDisconnect
  then show ?thesis using w by (simp add: wellLinked_disconnect)
next
  case (CallSendRaw d force)
  then show ?thesis using w by (simp add: wellLinked_link [OF link_sendRaw])
next
  case (TimerFires i)
  then show ?thesis using w by (simp add: wellLinked_link [OF link_timerFires])
next
  case (PortReceives h items)
  then show ?thesis using w by (simp add: wellLinked_link [OF link_portReceives])
next
  case (Unplug h)
  then show ?thesis using w by (simp add: wellLinked_transport_closes)
next
  case DispatchClose
  then show ?thesis using w by (simp add: wellLinked_dispatchClose)
qed

lemma wellLinked_run: "wellLinked s \<Longrightarrow> wellLinked (run es s)"
  by (induction es arbitrary: s) (simp_all add: wellLinked_step)

lemma wellLinked_reachable: "wellLinked (run es (newClient i dbg dec))"
  by (rule wellLinked_run) (rule wellLinked_newClient)

subsection \<open>Calls of connect that do not overlap\<close>

lemma phaseOf_setPhase:
  "phaseOf (setPhase k ph s) j = (if j = k \<and> k < length (connects s) then ph else phaseOf s j)"
  by (simp add: phaseOf_def setPhase_def)

lemma phaseOf_pending: "phaseOf s k \<noteq> Settled \<Longrightarrow> k < length (connects s)"
  by (simp add: phaseOf_def split: if_splits)










lemma phaseOf_transport_closes: "phaseOf (transport_closes h s) j = phaseOf s j"
  by (simp add: phaseOf_def transport_closes_def)

lemma phaseOf_disconnect: "phaseOf (disconnect s) j = phaseOf s j"
  by (simp add: phaseOf_def disconnect_frame)

lemma dispatchClose_frame:
  "connects (dispatchClose s) = connects s \<and> device (dispatchClose s) = device s
   \<and> ports (dispatchClose s) = ports s"
  by (simp add: dispatchClose_def onClose_def emit_def Let_def split: list.splits)

lemma phaseOf_dispatchClose: "phaseOf (dispatchClose s) j = phaseOf s j"
  by (simp add: phaseOf_def dispatchClose_frame)



















subsection \<open>How each step treats the flag and the calls of connect\<close>

lemma link_fields:
  assumes "link s' = link s"
  shows "isOpen s' = isOpen s" and "phaseOf s' k = phaseOf s k" and "device s' = device s"
    and "closeNotifications s' = closeNotifications s"
  using assms by (simp_all add: link_def phaseOf_def)

lemma phaseOf_setPhase_pending:
  "phaseOf s k \<noteq> Settled \<Longrightarrow>
   phaseOf (setPhase k ph s) j = (if j = k then ph else phaseOf s j)"
  using phaseOf_pending [of s k] by (simp add: phaseOf_setPhase)

lemma phaseOf_settle_connect:
  "phaseOf (settle_connect k r s) j = (if j = k then Settled else phaseOf s j)"
  by (simp add: settle_connect_def phaseOf_def setPhase_def)

lemma phaseOf_connect_start:
  "phaseOf (connect_start s) j =
     (if j = length (connects s) then AwaitDisconnect else phaseOf s j)"
  by (simp add: connect_start_def Let_def phaseOf_def nth_append disconnect_frame)

lemma flag_step:
  "isOpen (step e s) =
     (case e of
        OpenSucceeds k \<Rightarrow> (case phaseOf s k of AwaitOpen p \<Rightarrow> True | _ \<Rightarrow> isOpen s)
      | InitialNegotiateRejects k err \<Rightarrow>
          (case phaseOf s k of AwaitNegotiate \<Rightarrow> False | _ \<Rightarrow> isOpen s)
      | FetchPrinterInfoRejects k err \<Rightarrow>
          (case phaseOf s k of AwaitInfo \<Rightarrow> False | _ \<Rightarrow> isOpen s)
      | DispatchClose \<Rightarrow>
          (case closeNotifications s of [] \<Rightarrow> isOpen s
           | h # hs \<Rightarrow> if closeObserver (ports s h) then False else isOpen s)
      | _ \<Rightarrow> isOpen s)"
proof (cases e)
  case (CallSetPort p)
  then show ?thesis by (simp add: setPort_def)
next
  case CallConnect
  then show ?thesis by (simp add: connect_start_def Let_def disconnect_frame)
next
  case (DisconnectReturns k)
  then show ?thesis
    by (cases "phaseOf s k")
      (simp_all add: connect_resumed_def settle_connect_def setPhase_def split: option.splits)
next
  case (OpenSucceeds k)
  then show ?thesis
    by (cases "phaseOf s k")
      (simp_all add: connect_opened_def serialOpenAsync_def setPhase_def Let_def)
next
  case (OpenFails k err)
  then show ?thesis
    by (cases "phaseOf s k") (simp_all add: connect_open_failed_def settle_connect_def setPhase_def)
next
  case (InitialNegotiateResolves k)
  then show ?thesis by (cases "phaseOf s k") (simp_all add: connect_negotiated_def setPhase_def)
next
  case (InitialNegotiateRejects k err)
  then show ?thesis
    by (cases "phaseOf s k")
      (simp_all add: connect_negotiate_failed_def connect_catch_def setPhase_def disconnect_frame)
next
  case (FetchPrinterInfoResolves k)
  then show ?thesis
    by (cases "phaseOf s k")
      (simp_all add: connect_finish_def settle_connect_def setPhase_def emit_def Let_def)
next
  case (FetchPrinterInfoRejects k err)
  then show ?thesis
    by (cases "phaseOf s k")
      (simp_all add: connect_info_failed_def connect_catch_def setPhase_def disconnect_frame)
next
  case (SetConnectResult r)
  then show ?thesis by simp
next
  case CallStartHeartbeat
  then show ?thesis by simp
next
  case CallDisconnect
  then show ?thesis by (simp add: disconnect_frame)
next
  case (CallSendRaw d force)
  then show ?thesis using link_fields(1) [OF link_sendRaw] by simp
next
  case (Advance dt)
  then show ?thesis by simp
next
  case (TimerFires i)
  then show ?thesis using link_fields(1) [OF link_timerFires] by simp
next
  case (PortReceives h items)
  then show ?thesis using link_fields(1) [OF link_portReceives] by simp
next
  case (Unplug h)
  then show ?thesis by (simp add: transport_closes_def)
next
  case DispatchClose
  then show ?thesis
    by (cases "closeNotifications s") (simp_all add: dispatchClose_def onClose_def emit_def Let_def)
qed

lemma phase_step:
  "phaseOf (step e s) j =
     (case e of
        CallConnect \<Rightarrow> if j = length (connects s) then AwaitDisconnect else phaseOf s j
      | DisconnectReturns k \<Rightarrow>
          if j = k then
            (case phaseOf s k of
               AwaitDisconnect \<Rightarrow>
                 (case portName s of None \<Rightarrow> Settled
                  | Some p \<Rightarrow> if p = [] then Settled else AwaitOpen p)
             | AwaitRethrow err \<Rightarrow> Settled
             | ph \<Rightarrow> ph)
          else phaseOf s j
      | OpenSucceeds k \<Rightarrow>
          if j = k then (case phaseOf s k of AwaitOpen p \<Rightarrow> AwaitNegotiate | ph \<Rightarrow> ph)
          else phaseOf s j
      | OpenFails k err \<Rightarrow>
          if j = k then (case phaseOf s k of AwaitOpen p \<Rightarrow> Settled | ph \<Rightarrow> ph)
          else phaseOf s j
      | InitialNegotiateResolves k \<Rightarrow>
          if j = k then (case phaseOf s k of AwaitNegotiate \<Rightarrow> AwaitInfo | ph \<Rightarrow> ph)
          else phaseOf s j
      | InitialNegotiateRejects k err \<Rightarrow>
          if j = k then (case phaseOf s k of AwaitNegotiate \<Rightarrow> AwaitRethrow err | ph \<Rightarrow> ph)
          else phaseOf s j
      | FetchPrinterInfoResolves k \<Rightarrow>
          if j = k then (case phaseOf s k of AwaitInfo \<Rightarrow> Settled | ph \<Rightarrow> ph)
          else phaseOf s j
      | FetchPrinterInfoRejects k err \<Rightarrow>
          if j = k then (case phaseOf s k of AwaitInfo \<Rightarrow> AwaitRethrow err | ph \<Rightarrow> ph)
          else phaseOf s j
      | _ \<Rightarrow> phaseOf s j)"
proof (cases e)
  case (CallSetPort p)
  then show ?thesis by (simp add: setPort_def phaseOf_def)
next
  case CallConnect
  then show ?thesis by (simp add: phaseOf_connect_start)
next
  case (DisconnectReturns k)
  then show ?thesis
    by (cases "phaseOf s k")
      (simp_all add: connect_resumed_def phaseOf_settle_connect phaseOf_setPhase_pending
         split: option.splits)
next
  case (OpenSucceeds k)
  show ?thesis
  proof (cases "\<exists>p. phaseOf s k = AwaitOpen p")
    case True
    then obtain p where p: "phaseOf s k = AwaitOpen p" by blast
    then have "k < length (connects s)" by (intro phaseOf_pending) simp
    then show ?thesis using OpenSucceeds p
      by (simp add: connect_opened_eq [OF p]) (simp add: phaseOf_def)
  next
    case False
    then show ?thesis using OpenSucceeds
      by (cases "phaseOf s k") (simp_all add: connect_opened_def)
  qed
next
  case (OpenFails k err)
  then show ?thesis
    by (cases "phaseOf s k") (simp_all add: connect_open_failed_def phaseOf_settle_connect)
next
  case (InitialNegotiateResolves k)
  then show ?thesis
    by (cases "phaseOf s k") (simp_all add: connect_negotiated_def phaseOf_setPhase_pending)
next
  case (InitialNegotiateRejects k err)
  have "phaseOf (disconnect (s\<lparr>isOpen := False\<rparr>)) i = phaseOf s i" for i
    by (simp add: phaseOf_disconnect) (simp add: phaseOf_def)
  then have "phaseOf s k \<noteq> Settled \<Longrightarrow>
      phaseOf (connect_catch k err s) j = (if j = k then AwaitRethrow err else phaseOf s j)"
    by (simp add: connect_catch_def phaseOf_setPhase_pending)
  then show ?thesis using InitialNegotiateRejects
    by (cases "phaseOf s k") (simp_all add: connect_negotiate_failed_def)
next
  case (FetchPrinterInfoResolves k)
  have "phaseOf (emit ev s) i = phaseOf s i" for ev i
    by (simp add: emit_def phaseOf_def)
  then show ?thesis using FetchPrinterInfoResolves
    by (cases "phaseOf s k") (simp_all add: connect_finish_def Let_def phaseOf_settle_connect)
next
  case (FetchPrinterInfoRejects k err)
  have "phaseOf (disconnect (s\<lparr>isOpen := False\<rparr>)) i = phaseOf s i" for i
    by (simp add: phaseOf_disconnect) (simp add: phaseOf_def)
  then have "phaseOf s k \<noteq> Settled \<Longrightarrow>
      phaseOf (connect_catch k err s) j = (if j = k then AwaitRethrow err else phaseOf s j)"
    by (simp add: connect_catch_def phaseOf_setPhase_pending)
  then show ?thesis using FetchPrinterInfoRejects
    by (cases "phaseOf s k") (simp_all add: connect_info_failed_def)
next
  case (SetConnectResult r)
  then show ?thesis by (simp add: phaseOf_def)
next
  case CallStartHeartbeat
  then show ?thesis by (simp add: phaseOf_def)
next
  case CallDisconnect
  then show ?thesis by (simp add: phaseOf_disconnect)
next
  case (CallSendRaw d force)
  then show ?thesis using link_fields(2) [OF link_sendRaw] by simp
next
  case (Advance dt)
  then show ?thesis by (simp add: phaseOf_def)
next
  case (TimerFires i)
  then show ?thesis using link_fields(2) [OF link_timerFires] by simp
next
  case (PortReceives h items)
  then show ?thesis using link_fields(2) [OF link_portReceives] by simp
next
  case (Unplug h)
  then show ?thesis by (simp add: phaseOf_transport_closes)
next
  case DispatchClose
  then show ?thesis by (simp add: phaseOf_dispatchClose)
qed



lemma overlappingClient_eq:
  "overlappingClient =
     \<lparr>portName = Some ''COM8'', device = Some 1, isOpen = True, connectResult = None,
      packetIntervalMs = 10, debug = False, heartbeatRunning = False,
      processRawPacket = (\<lambda>_. None), mutexLocked = False, mutexQueue = [],
      sleeping = [], now = 0, connects = [AwaitNegotiate, AwaitNegotiate],
      ports = (\<lambda>_. closedPort)
                (0 := \<lparr>path = ''COM7'', port_isOpen = True,
                        closeObserver = True, readableObserver = True, buffered = []\<rparr>,
                 1 := \<lparr>path = ''COM8'', port_isOpen = True,
                        closeObserver = True, readableObserver = True, buffered = []\<rparr>),
      nports = 2, closeNotifications = [],
      trace = [StopHeartbeat, StopHeartbeat, PortOpened 0 ''COM7'', PortOpened 1 ''COM8'']\<rparr>"
  by (simp add: overlappingClient_def freshClient_def segment_defs Let_def)

subsection \<open>The flag behind isConnected\<close>




subsection \<open>One transport handle\<close>





subsection \<open>A failed handshake\<close>

lemma deliver_all:
  "wellLinked s \<Longrightarrow> length (closeNotifications s) = n \<Longrightarrow>
   closeNotifications (run (replicate n DispatchClose) s) = []
   \<and> disconnects (trace (run (replicate n DispatchClose) s)) = disconnects (trace s) + n
   \<and> closes (trace (run (replicate n DispatchClose) s)) = closes (trace s)
   \<and> (isOpen (run (replicate n DispatchClose) s) \<longrightarrow> isOpen s \<and> n = 0)
   \<and> device (run (replicate n DispatchClose) s) = device s
   \<and> ports (run (replicate n DispatchClose) s) = ports s"
proof (induction n arbitrary: s)
  case 0
  then show ?case by simp
next
  case (Suc n)
  then obtain h hs where c: "closeNotifications s = h # hs"
    by (cases "closeNotifications s") auto
  let ?s = "s\<lparr>closeNotifications := hs, isOpen := False, trace := trace s @ [Emit DisconnectEvent]\<rparr>"
  have d: "dispatchClose s = ?s" using Suc.prems(1) c by (rule dispatchClose_observed)
  have w: "wellLinked ?s" using wellLinked_dispatchClose [OF Suc.prems(1)] by (simp only: d)
  have l: "length (closeNotifications ?s) = n" using Suc.prems(2) c by simp
  from Suc.IH [OF w l] show ?case
    by (simp add: d closes_append disconnects_append)
qed

lemma deliverCloses_flag:
  assumes w: "wellLinked s" and c: "\<forall>h. device s = Some h \<longrightarrow> \<not> port_isOpen (ports s h)"
  shows "\<not> isConnected (deliverCloses s)"
proof
  assume "isConnected (deliverCloses s)"
  then have o: "isOpen (run (replicate (length (closeNotifications s)) DispatchClose) s)"
    by (simp add: deliverCloses_def isConnected_def)
  with deliver_all [OF w refl] have "isOpen s" "closeNotifications s = []" by auto
  with wellLinkedD(3) [OF w] c show False by auto
qed








subsection \<open>connect, disconnect and the close notification\<close>

lemma handshake_flag_step:
  assumes "sparesFlag k e"
    and "inHandshake (phaseOf s k) \<longrightarrow> isOpen s"
  shows "inHandshake (phaseOf (step e s) k) \<longrightarrow> isOpen (step e s)"
  using assms
  by (cases e; cases "phaseOf s k")
     (auto simp add: flag_step phase_step simp del: step.simps split: option.splits phase.splits)

lemma handshake_flag_run:
  assumes "\<forall>e\<in>set es. sparesFlag k e"
    and "inHandshake (phaseOf s k) \<longrightarrow> isOpen s"
  shows "inHandshake (phaseOf (run es s) k) \<longrightarrow> isOpen (run es s)"
  using assms
proof (induction es arbitrary: s)
  case Nil
  then show ?case by simp
next
  case (Cons e es)
  from Cons.prems have "sparesFlag k e" "\<forall>e\<in>set es. sparesFlag k e" by auto
  from Cons.IH [OF this(2) handshake_flag_step [OF this(1) Cons.prems(2)]]
  show ?case by simp
qed

lemma connect_resolves_connected:
  assumes p: "phaseOf s k = AwaitOpen p" and q: "\<forall>e\<in>set es. sparesFlag k e"
    and i: "phaseOf (run (OpenSucceeds k # es) s) k = AwaitInfo"
  shows "isConnected (run (OpenSucceeds k # es @ [FetchPrinterInfoResolves k]) s)
       \<and> trace (run (OpenSucceeds k # es @ [FetchPrinterInfoResolves k]) s) =
           trace (run (OpenSucceeds k # es) s) @
             [Emit (ConnectEvent (connectionInfo (run (OpenSucceeds k # es) s))),
              ConnectSettled (Inr (connectionInfo (run (OpenSucceeds k # es) s)))]"
proof -
  let ?s1 = "step (OpenSucceeds k) s"
  have "isOpen ?s1" using p by (simp add: flag_step del: step.simps)
  then have "inHandshake (phaseOf ?s1 k) \<longrightarrow> isOpen ?s1" by simp
  from handshake_flag_run [OF q this] i have o: "isOpen (run es ?s1)" by simp
  have r: "run (OpenSucceeds k # es @ [FetchPrinterInfoResolves k]) s = connect_finish k (run es ?s1)"
    by (simp add: run_append)
  from i have i': "phaseOf (run es ?s1) k = AwaitInfo" by simp
  have "isOpen (connect_finish k (run es ?s1))"
    using o i' by (simp add: connect_finish_def settle_connect_def setPhase_def emit_def Let_def)
  moreover have "trace (connect_finish k (run es ?s1)) = trace (run es ?s1) @
             [Emit (ConnectEvent (connectionInfo (run es ?s1))),
              ConnectSettled (Inr (connectionInfo (run es ?s1)))]"
    using i' by (simp add: connect_finish_def settle_connect_def setPhase_def emit_def Let_def)
  ultimately show ?thesis by (simp only: r isConnected_def) simp
qed

lemma unplug_device_closed:
  "device s = Some h \<Longrightarrow> device (transport_closes h s) = Some h
     \<and> \<not> port_isOpen (ports (transport_closes h s) h)"
  by (simp add: transport_closes_def)

text \<open>
  A \<open>connect()\<close> that resolves does not by itself leave \<open>isConnected()\<close> true: on
  \<open>overlappingClient\<close> the handshake of the first call fails, which clears the flag,
  and the second call then resolves with the flag cleared.
\<close>

lemma connect_resolves_disconnected:
  "phaseOf (run [InitialNegotiateRejects 0 (Error ''timeout''), InitialNegotiateResolves 1,
        FetchPrinterInfoResolves 1] overlappingClient) 1 = Settled
   \<and> last (trace (run [InitialNegotiateRejects 0 (Error ''timeout''), InitialNegotiateResolves 1,
        FetchPrinterInfoResolves 1] overlappingClient)) =
        ConnectSettled (Inr \<lparr>deviceName = ''Serial (COM8)'', result = FirmwareErrors\<rparr>)
   \<and> \<not> isConnected (run [InitialNegotiateRejects 0 (Error ''timeout''), InitialNegotiateResolves 1,
        FetchPrinterInfoResolves 1] overlappingClient)"
  by (simp add: overlappingClient_eq segment_defs Let_def)

text \<open>
  C7, as amended. In every state \<open>s\<close> the client reaches:
  if a pending \<open>connect()\<close> opens the transport and resolves, and in between no close
  notification is delivered and no other call of \<open>connect()\<close> fails its handshake,
  then \<open>isConnected()\<close> returns true when it has resolved;
  after \<open>disconnect()\<close>, and after a close of the device by the transport, \<open>isConnected()\<close>
  returns false once the pending close notifications have been delivered
  (\<open>disconnect()\<close> itself only requests the close and leaves the flag to the close
  observer);
  every handle that closes, by \<open>disconnect()\<close> (the device) or by the transport,
  queues one close notification, and every notification that is delivered emits
  one \<open>disconnect\<close> event and clears the flag, so the events emitted plus the
  notifications pending count the closes, and with nothing pending there is one
  event per close.
\<close>

theorem flag_follows_close_notification:
  assumes "s = run es (newClient interval dbg decoder)"
  shows "(\<forall>k p es'. phaseOf s k = AwaitOpen p \<and> (\<forall>e\<in>set es'. sparesFlag k e)
            \<and> phaseOf (run (OpenSucceeds k # es') s) k = AwaitInfo \<longrightarrow>
          isConnected (run (OpenSucceeds k # es' @ [FetchPrinterInfoResolves k]) s)
          \<and> trace (run (OpenSucceeds k # es' @ [FetchPrinterInfoResolves k]) s) =
              trace (run (OpenSucceeds k # es') s) @
                [Emit (ConnectEvent (connectionInfo (run (OpenSucceeds k # es') s))),
                 ConnectSettled (Inr (connectionInfo (run (OpenSucceeds k # es') s)))])
       \<and> \<not> isConnected (deliverCloses (step CallDisconnect s))
       \<and> (\<forall>h. device s = Some h \<longrightarrow> \<not> isConnected (deliverCloses (step (Unplug h) s)))
       \<and> (\<forall>h. port_isOpen (ports s h) \<longrightarrow>
            closeNotifications (step (Unplug h) s) = closeNotifications s @ [h]
            \<and> (device s = Some h \<longrightarrow>
                 closeNotifications (step CallDisconnect s) = closeNotifications s @ [h]))
       \<and> (\<forall>h hs. closeNotifications s = h # hs \<longrightarrow>
            closeNotifications (step DispatchClose s) = hs
            \<and> trace (step DispatchClose s) = trace s @ [Emit DisconnectEvent]
            \<and> \<not> isConnected (step DispatchClose s))
       \<and> disconnects (trace s) + length (closeNotifications s) = closes (trace s)
       \<and> disconnects (trace (deliverCloses s)) = closes (trace (deliverCloses s))"
proof -
  have w: "wellLinked s" using assms by (simp add: wellLinked_reachable)
  have a: "\<forall>k p es'. phaseOf s k = AwaitOpen p \<and> (\<forall>e\<in>set es'. sparesFlag k e)
            \<and> phaseOf (run (OpenSucceeds k # es') s) k = AwaitInfo \<longrightarrow>
          isConnected (run (OpenSucceeds k # es' @ [FetchPrinterInfoResolves k]) s)
          \<and> trace (run (OpenSucceeds k # es' @ [FetchPrinterInfoResolves k]) s) =
              trace (run (OpenSucceeds k # es') s) @
                [Emit (ConnectEvent (connectionInfo (run (OpenSucceeds k # es') s))),
                 ConnectSettled (Inr (connectionInfo (run (OpenSucceeds k # es') s)))]"
    using connect_resolves_connected by blast
  have "\<forall>h. device (disconnect s) = Some h \<longrightarrow> \<not> port_isOpen (ports (disconnect s) h)"
    by (simp add: disconnect_open disconnect_frame)
  from deliverCloses_flag [OF wellLinked_disconnect [OF w] this]
  have b: "\<not> isConnected (deliverCloses (step CallDisconnect s))" by simp
  have c: "\<forall>h. device s = Some h \<longrightarrow> \<not> isConnected (deliverCloses (step (Unplug h) s))"
  proof (intro allI impI)
    fix h assume d: "device s = Some h"
    have "\<forall>k. device (transport_closes h s) = Some k \<longrightarrow> \<not> port_isOpen (ports (transport_closes h s) k)"
      using unplug_device_closed [OF d] by auto
    from deliverCloses_flag [OF wellLinked_transport_closes [OF w] this]
    show "\<not> isConnected (deliverCloses (step (Unplug h) s))" by simp
  qed
  have d: "\<forall>h. port_isOpen (ports s h) \<longrightarrow>
            closeNotifications (step (Unplug h) s) = closeNotifications s @ [h]
            \<and> (device s = Some h \<longrightarrow>
                 closeNotifications (step CallDisconnect s) = closeNotifications s @ [h])"
    by (simp add: transport_closes_def disconnect_notifications)
  have e: "\<forall>h hs. closeNotifications s = h # hs \<longrightarrow>
            closeNotifications (step DispatchClose s) = hs
            \<and> trace (step DispatchClose s) = trace s @ [Emit DisconnectEvent]
            \<and> \<not> isConnected (step DispatchClose s)"
    using dispatchClose_observed [OF w] by (simp add: isConnected_def)
  have f: "disconnects (trace s) + length (closeNotifications s) = closes (trace s)"
    by (rule wellLinkedD(4) [OF w])
  have g: "disconnects (trace (deliverCloses s)) = closes (trace (deliverCloses s))"
    using deliver_all [OF w refl] f by (simp add: deliverCloses_def)
  from a b c d e f g show ?thesis by blast
qed

text \<open>
  C7 as stated fails: on the connected client, \<open>disconnect()\<close> closes the port, and
  \<open>isConnected()\<close> still returns true; it returns false when the close notification
  of the port has been delivered.
\<close>

theorem disconnect_leaves_flag_counterexample:
  "isConnected connectedClient
   \<and> isConnected (step CallDisconnect connectedClient)
   \<and> \<not> port_isOpen (ports (step CallDisconnect connectedClient) 0)
   \<and> closeNotifications (step CallDisconnect connectedClient) = [0]
   \<and> \<not> isConnected (run [CallDisconnect, DispatchClose] connectedClient)"
  by (simp add: connectedClient_eq segment_defs Let_def)

theorem flag_follows_close_notification_witness:
  "connectedClient = run [CallSetPort ''COM7'', CallConnect, DisconnectReturns 0, OpenSucceeds 0,
       InitialNegotiateResolves 0, FetchPrinterInfoResolves 0] (newClient 10 False (\<lambda>_. None))
   \<and> device connectedClient = Some 0 \<and> port_isOpen (ports connectedClient 0)
   \<and> \<not> isConnected (deliverCloses (step CallDisconnect connectedClient))
   \<and> \<not> isConnected (deliverCloses (step (Unplug 0) connectedClient))
   \<and> closeNotifications (step (Unplug 0) connectedClient) = [0]
   \<and> closeNotifications (step CallDisconnect connectedClient) = [0]
   \<and> trace (step DispatchClose (step (Unplug 0) connectedClient)) =
        trace (step (Unplug 0) connectedClient) @ [Emit DisconnectEvent]
   \<and> disconnects (trace (deliverCloses (step (Unplug 0) connectedClient))) = 1
   \<and> closes (trace (deliverCloses (step (Unplug 0) connectedClient))) = 1
   \<and> phaseOf (run [CallSetPort ''COM7'', CallConnect, DisconnectReturns 0]
        (newClient 10 False (\<lambda>_. None))) 0 = AwaitOpen ''COM7''
   \<and> phaseOf (run [OpenSucceeds 0, CallSendRaw [1] False, InitialNegotiateResolves 0]
        (run [CallSetPort ''COM7'', CallConnect, DisconnectReturns 0]
           (newClient 10 False (\<lambda>_. None)))) 0 = AwaitInfo
   \<and> isConnected (run [OpenSucceeds 0, CallSendRaw [1] False, InitialNegotiateResolves 0,
        FetchPrinterInfoResolves 0]
        (run [CallSetPort ''COM7'', CallConnect, DisconnectReturns 0]
           (newClient 10 False (\<lambda>_. None))))"
proof -
  let ?o = "run [CallSetPort ''COM7'', CallConnect, DisconnectReturns 0]
      (newClient 10 False (\<lambda>_. None))"
  have o: "phaseOf ?o 0 = AwaitOpen ''COM7''"
    by (simp add: segment_defs Let_def)
  have i: "phaseOf (run (OpenSucceeds 0 # [CallSendRaw [1] False, InitialNegotiateResolves 0]) ?o) 0
      = AwaitInfo"
    by (simp add: segment_defs Let_def)
  have q: "\<forall>e\<in>set [CallSendRaw [1] False, InitialNegotiateResolves 0]. sparesFlag 0 e"
    by simp
  from flag_follows_close_notification [OF refl,
      of "[CallSetPort ''COM7'', CallConnect, DisconnectReturns 0]" 10 False "\<lambda>_. None"]
  have "phaseOf ?o 0 = AwaitOpen ''COM7''
        \<and> (\<forall>e\<in>set [CallSendRaw [1] False, InitialNegotiateResolves 0]. sparesFlag 0 e)
        \<and> phaseOf (run (OpenSucceeds 0 # [CallSendRaw [1] False, InitialNegotiateResolves 0]) ?o) 0
            = AwaitInfo \<longrightarrow>
      isConnected (run (OpenSucceeds 0 # [CallSendRaw [1] False, InitialNegotiateResolves 0]
        @ [FetchPrinterInfoResolves 0]) ?o)"
    by blast
  with o i q have "isConnected (run (OpenSucceeds 0 # [CallSendRaw [1] False, InitialNegotiateResolves 0]
        @ [FetchPrinterInfoResolves 0]) ?o)"
    by blast
  then have 8: "isConnected (run [OpenSucceeds 0, CallSendRaw [1] False, InitialNegotiateResolves 0,
        FetchPrinterInfoResolves 0] ?o)"
    by (simp only: append.simps)
  from i have 9: "phaseOf (run [OpenSucceeds 0, CallSendRaw [1] False, InitialNegotiateResolves 0] ?o) 0
      = AwaitInfo" .
  have r: "connectedClient = run [CallSetPort ''COM7'', CallConnect, DisconnectReturns 0,
       OpenSucceeds 0, InitialNegotiateResolves 0, FetchPrinterInfoResolves 0]
       (newClient 10 False (\<lambda>_. None))"
    by (simp add: connectedClient_def negotiatingClient_def freshClient_def)
  have u: "step (Unplug 0) connectedClient = run ([CallSetPort ''COM7'', CallConnect,
       DisconnectReturns 0, OpenSucceeds 0, InitialNegotiateResolves 0, FetchPrinterInfoResolves 0]
       @ [Unplug 0]) (newClient 10 False (\<lambda>_. None))"
  proof -
    have "run ([CallSetPort ''COM7'', CallConnect, DisconnectReturns 0, OpenSucceeds 0,
       InitialNegotiateResolves 0, FetchPrinterInfoResolves 0] @ [Unplug 0])
         (newClient 10 False (\<lambda>_. None))
       = run [Unplug 0] (run [CallSetPort ''COM7'', CallConnect, DisconnectReturns 0, OpenSucceeds 0,
       InitialNegotiateResolves 0, FetchPrinterInfoResolves 0] (newClient 10 False (\<lambda>_. None)))"
      by (rule run_append)
    also have "\<dots> = run [Unplug 0] connectedClient" by (simp only: r [symmetric])
    also have "\<dots> = step (Unplug 0) connectedClient" by simp
    finally show ?thesis by simp
  qed
  have f: "device connectedClient = Some 0" "port_isOpen (ports connectedClient 0)"
      "closeNotifications connectedClient = []"
    by (simp_all add: connectedClient_eq)
  note t = flag_follows_close_notification [OF r]
  note t' = flag_follows_close_notification [OF u]
  from t have 1: "\<not> isConnected (deliverCloses (step CallDisconnect connectedClient))"
    by blast
  from t f(1) have 2: "\<not> isConnected (deliverCloses (step (Unplug 0) connectedClient))"
    by blast
  from t f(2) have "closeNotifications (step (Unplug 0) connectedClient) = closeNotifications connectedClient @ [0]"
    by blast
  then have 3: "closeNotifications (step (Unplug 0) connectedClient) = [0]"
    by (simp only: f append_Nil)
  from t f(1,2) have "closeNotifications (step CallDisconnect connectedClient)
      = closeNotifications connectedClient @ [0]"
    by blast
  then have 10: "closeNotifications (step CallDisconnect connectedClient) = [0]"
    by (simp only: f append_Nil)
  from t' 3 have 4: "trace (step DispatchClose (step (Unplug 0) connectedClient)) =
        trace (step (Unplug 0) connectedClient) @ [Emit DisconnectEvent]"
    by blast
  from t' have 5: "disconnects (trace (deliverCloses (step (Unplug 0) connectedClient)))
      = closes (trace (deliverCloses (step (Unplug 0) connectedClient)))"
    by blast
  have 6: "closes (trace (deliverCloses (step (Unplug 0) connectedClient))) = 1"
    by (simp add: deliverCloses_def connectedClient_eq segment_defs Let_def)
  from 5 6 have 7: "disconnects (trace (deliverCloses (step (Unplug 0) connectedClient))) = 1"
    by simp
  from r f(1,2) 1 2 3 10 4 6 7 o 8 9 show ?thesis by blast
qed

end
